theory Spec2Isabelle
  imports Complex_Main "HOL-Library.Word" "HOL-Library.Multiset"
begin

unbundle bit_operations_syntax

section \<open>The bracket engine (src/lib/bracket.ts)\<close>

subsection \<open>JavaScript values used by the engine\<close>

text \<open>
  Track identifiers and match keys are JavaScript strings, modelled as \<open>string\<close>.
  The winners map is a record from string keys to strings: a partial map from keys to
  identifiers. A read \<open>winners[k]\<close> of a missing key gives \<open>undefined\<close>, modelled as
  \<open>None\<close>. The engine tests such reads with \<open>!v\<close>, which holds for \<open>undefined\<close> and for
  the empty string; \<open>truthy\<close> is the negation of that test.
\<close>

type_synonym WinnerMap = "string \<rightharpoonup> string"

definition truthy :: "string option \<Rightarrow> bool" where
  "truthy v = (case v of None \<Rightarrow> False | Some s \<Rightarrow> s \<noteq> [])"

text \<open>
  An array read \<open>xs[i]\<close> with an integer index: \<open>undefined\<close> outside \<open>0 .. length - 1\<close>.
\<close>

definition arrayGet :: "'a list \<Rightarrow> int \<Rightarrow> 'a option" where
  "arrayGet xs i = (if 0 \<le> i \<and> i < int (length xs) then Some (xs ! nat i) else None)"

text \<open>
  The decimal text of an integer, as a template literal \<open>`${n}`\<close> prints it (integers
  below \<open>10^21\<close> in magnitude print as plain digits, with a leading minus sign when
  negative).
\<close>

definition digitChar :: "nat \<Rightarrow> char" where
  "digitChar d = ''0123456789'' ! d"

fun natToString :: "nat \<Rightarrow> string" where
  "natToString n =
     (if n < 10 then [digitChar n]
      else natToString (n div 10) @ [digitChar (n mod 10)])"

declare natToString.simps [simp del]

definition numberToString :: "int \<Rightarrow> string" where
  "numberToString i =
     (if i < 0 then CHR ''-'' # natToString (nat (- i)) else natToString (nat i))"

subsection \<open>Sizes, rounds and keys\<close>

datatype error = InvalidSize

text \<open>
  \<open>isPowerOfTwo\<close>: the size is an array length, a natural number below \<open>2^32\<close>, so
  \<open>Number.isInteger\<close> holds and the 32-bit test \<open>(n & (n - 1)) === 0\<close> is the bitwise
  one on the number itself.
\<close>

definition isPowerOfTwo :: "nat \<Rightarrow> bool" where
  "isPowerOfTwo n = (n > 0 \<and> n AND (n - 1) = 0)"

text \<open>
  \<open>Math.log2\<close> on a power of two is its exponent. \<open>mathLog2\<close> is the logarithm
  rounded down, which is what the callers take of it (\<open>Math.floor(Math.log2(n))\<close> for
  the track counts of the sizing code).
\<close>

fun mathLog2 :: "nat \<Rightarrow> nat" where
  "mathLog2 n = (if n < 2 then 0 else Suc (mathLog2 (n div 2)))"

declare mathLog2.simps [simp del]

definition totalRounds :: "nat \<Rightarrow> error + nat" where
  "totalRounds sz = (if \<not> isPowerOfTwo sz then Inl InvalidSize else Inr (mathLog2 sz))"

definition matchKey :: "int \<Rightarrow> int \<Rightarrow> string" where
  "matchKey rnd mtch = ''r'' @ numberToString rnd @ ''m'' @ numberToString mtch"

text \<open>
  \<open>matchCount\<close> is the JavaScript quotient \<open>size / 2 ** (round + 1)\<close>, a fraction when
  the round is beyond the last one. A loop \<open>for (m = 0; m < matches; m++)\<close> runs over
  \<open>matchIndices\<close>.
\<close>

definition matchCount :: "nat \<Rightarrow> nat \<Rightarrow> rat" where
  "matchCount sz rnd = of_nat sz / 2 ^ (rnd + 1)"

definition matchIndices :: "nat \<Rightarrow> nat \<Rightarrow> nat list" where
  "matchIndices sz rnd = [0 ..< nat \<lceil>matchCount sz rnd\<rceil>]"

subsection \<open>Participants of a match\<close>

definition bothTruthy :: "string option \<Rightarrow> string option \<Rightarrow> (string \<times> string) option" where
  "bothTruthy x y =
     (case (x, y) of
        (Some a, Some b) \<Rightarrow> if a = [] \<or> b = [] then None else Some (a, b)
      | _ \<Rightarrow> None)"

definition resolveMatchParticipants ::
  "nat \<Rightarrow> string list \<Rightarrow> WinnerMap \<Rightarrow> int \<Rightarrow> int \<Rightarrow> (string \<times> string) option" where
  "resolveMatchParticipants sz tracks winners rnd mtch =
     (if length tracks \<noteq> sz then None
      else if rnd < 0 then None
      else if rnd = 0 then
        bothTruthy (arrayGet tracks (mtch * 2)) (arrayGet tracks (mtch * 2 + 1))
      else
        (let prevRound = rnd - 1
         in bothTruthy (winners (matchKey prevRound (mtch * 2)))
                       (winners (matchKey prevRound (mtch * 2 + 1)))))"

subsection \<open>The next open match\<close>

record MatchRef =
  mrRound :: nat
  mrMatch :: nat
  mrA :: string
  mrB :: string

text \<open>
  The inner loop of \<open>nextOpenMatch\<close> over the match indices of round \<open>r\<close>: \<open>continue\<close>
  is the recursive call on the rest, \<open>return\<close> ends the scan.
\<close>

fun scanMatches :: "nat \<Rightarrow> string list \<Rightarrow> WinnerMap \<Rightarrow> nat \<Rightarrow> nat list \<Rightarrow> MatchRef option" where
  "scanMatches sz tracks winners r [] = None"
| "scanMatches sz tracks winners r (m # ms) =
     (if truthy (winners (matchKey (int r) (int m))) then scanMatches sz tracks winners r ms
      else
        (case resolveMatchParticipants sz tracks winners (int r) (int m) of
           None \<Rightarrow> scanMatches sz tracks winners r ms
         | Some (a, b) \<Rightarrow> Some \<lparr>mrRound = r, mrMatch = m, mrA = a, mrB = b\<rparr>))"

fun scanRounds :: "nat \<Rightarrow> string list \<Rightarrow> WinnerMap \<Rightarrow> nat list \<Rightarrow> MatchRef option" where
  "scanRounds sz tracks winners [] = None"
| "scanRounds sz tracks winners (r # rs) =
     (case scanMatches sz tracks winners r (matchIndices sz r) of
        Some found \<Rightarrow> Some found
      | None \<Rightarrow> scanRounds sz tracks winners rs)"

definition nextOpenMatch :: "nat \<Rightarrow> string list \<Rightarrow> WinnerMap \<Rightarrow> error + MatchRef option" where
  "nextOpenMatch sz tracks winners =
     (case totalRounds sz of
        Inl e \<Rightarrow> Inl e
      | Inr rounds \<Rightarrow> Inr (scanRounds sz tracks winners [0 ..< rounds]))"

subsection \<open>The champion and the ranking\<close>

definition bracketWinner :: "nat \<Rightarrow> WinnerMap \<Rightarrow> error + string option" where
  "bracketWinner sz winners =
     (case totalRounds sz of
        Inl e \<Rightarrow> Inl e
      | Inr rounds \<Rightarrow>
          (let winner = winners (matchKey (int rounds - 1) 0)
           in if \<not> truthy winner then Inr None else Inr winner))"

text \<open>
  The state of the ranking loops: \<open>loserByRound\<close>, one list per round, and \<open>runnerUp\<close>.
  \<open>None\<close> as a result is the early \<open>return null\<close>.
\<close>

type_synonym rankState = "string list list \<times> string option"

fun rankMatches ::
  "nat \<Rightarrow> string list \<Rightarrow> WinnerMap \<Rightarrow> nat \<Rightarrow> nat \<Rightarrow> nat list \<Rightarrow> rankState \<Rightarrow> rankState option" where
  "rankMatches sz tracks winners rounds r [] st = Some st"
| "rankMatches sz tracks winners rounds r (m # ms) st =
     (case resolveMatchParticipants sz tracks winners (int r) (int m) of
        None \<Rightarrow> None
      | Some (a, b) \<Rightarrow>
          (case winners (matchKey (int r) (int m)) of
             None \<Rightarrow> None
           | Some win \<Rightarrow>
               if win = [] then None
               else
                 (let lose = (if win = a then b else a)
                  in rankMatches sz tracks winners rounds r ms
                       (if int r = int rounds - 1 then (fst st, Some lose)
                        else ((fst st)[r := fst st ! r @ [lose]], snd st)))))"

fun rankRounds ::
  "nat \<Rightarrow> string list \<Rightarrow> WinnerMap \<Rightarrow> nat \<Rightarrow> nat list \<Rightarrow> rankState \<Rightarrow> rankState option" where
  "rankRounds sz tracks winners rounds [] st = Some st"
| "rankRounds sz tracks winners rounds (r # rs) st =
     (case rankMatches sz tracks winners rounds r (matchIndices sz r) st of
        None \<Rightarrow> None
      | Some st' \<Rightarrow> rankRounds sz tracks winners rounds rs st')"

definition computeRanking :: "nat \<Rightarrow> string list \<Rightarrow> WinnerMap \<Rightarrow> error + string list option" where
  "computeRanking sz tracks winners =
     (case totalRounds sz of
        Inl e \<Rightarrow> Inl e
      | Inr rounds \<Rightarrow>
          (case bracketWinner sz winners of
             Inl e \<Rightarrow> Inl e
           | Inr None \<Rightarrow> Inr None
           | Inr (Some finalWinner) \<Rightarrow>
               (case rankRounds sz tracks winners rounds [0 ..< rounds] (replicate rounds [], None) of
                  None \<Rightarrow> Inr None
                | Some (loserByRound, runnerUp) \<Rightarrow>
                    if \<not> truthy runnerUp then Inr None
                    else Inr (Some ([finalWinner, the runnerUp]
                            @ concat (map (\<lambda>r. loserByRound ! r) (rev [0 ..< rounds - 1])))))))"

subsection \<open>The seeded shuffle\<close>

text \<open>
  \<open>mulberry32\<close> keeps a 32-bit state \<open>a\<close>. Every operation of its step is a 32-bit one
  (\<open>| 0\<close>, \<open>Math.imul\<close>, \<open>^\<close>, \<open>>>>\<close>), so the state is a \<open>32 word\<close>; \<open>seed >>> 0\<close> is the
  seed modulo \<open>2^32\<close>. A step returns the new state and the fraction in \<open>[0, 1)\<close>.
\<close>

type_synonym u32 = "32 word"

definition mulberry32 :: "int \<Rightarrow> u32" where
  "mulberry32 seed = word_of_int seed"

definition rand :: "u32 \<Rightarrow> u32 \<times> rat" where
  "rand a0 =
     (let a = a0 + 0x6d2b79f5;
          t = (a XOR drop_bit 15 a) * (1 OR a);
          t = (t + (t XOR drop_bit 7 t) * (61 OR t)) XOR t
      in (a, of_nat (unat (t XOR drop_bit 14 t)) / 4294967296))"

text \<open>
  The destructuring swap \<open>[out[i], out[j]] = [out[j], out[i]]\<close> reads both cells, then
  writes \<open>out[i]\<close>, then \<open>out[j]\<close>.
\<close>

definition swapCells :: "'a list \<Rightarrow> nat \<Rightarrow> nat \<Rightarrow> 'a list" where
  "swapCells out i j = (out[i := out ! j])[j := out ! i]"

text \<open>The loop \<open>for (i = out.length - 1; i > 0; i--)\<close>, on the local array \<open>out\<close>.\<close>

fun shuffleLoop :: "'a list \<Rightarrow> u32 \<Rightarrow> nat \<Rightarrow> 'a list" where
  "shuffleLoop out a 0 = out"
| "shuffleLoop out a (Suc n) =
     (let (a', x) = rand a;
          j = nat \<lfloor>x * of_nat (Suc n + 1)\<rfloor>
      in shuffleLoop (swapCells out (Suc n) j) a' n)"

definition seededShuffle :: "'a list \<Rightarrow> int \<Rightarrow> 'a list" where
  "seededShuffle arr seed = shuffleLoop arr (mulberry32 seed) (length arr - 1)"

text \<open>
  The same function on a store of arrays, where the argument is a reference: \<open>slice\<close>
  allocates a copy, the loop writes to the copy's cells, the copy's reference is returned.
\<close>

record 'a store =
  cells :: "nat \<rightharpoonup> 'a list"
  fresh :: nat

definition wellFormed :: "'a store \<Rightarrow> bool" where
  "wellFormed h = (\<forall>p. p \<ge> fresh h \<longrightarrow> cells h p = None)"

definition slice :: "'a store \<Rightarrow> nat \<Rightarrow> ('a store \<times> nat) option" where
  "slice h arr =
     (case cells h arr of
        None \<Rightarrow> None
      | Some xs \<Rightarrow> Some (h\<lparr>cells := (cells h)(fresh h \<mapsto> xs), fresh := Suc (fresh h)\<rparr>, fresh h))"

definition readCell :: "'a store \<Rightarrow> nat \<Rightarrow> nat \<Rightarrow> 'a" where
  "readCell h p i = (case cells h p of Some xs \<Rightarrow> xs ! i)"

definition writeCell :: "'a store \<Rightarrow> nat \<Rightarrow> nat \<Rightarrow> 'a \<Rightarrow> 'a store" where
  "writeCell h p i v =
     (case cells h p of
        None \<Rightarrow> h
      | Some xs \<Rightarrow> h\<lparr>cells := (cells h)(p \<mapsto> xs[i := v])\<rparr>)"

fun shuffleLoopStore :: "'a store \<Rightarrow> nat \<Rightarrow> u32 \<Rightarrow> nat \<Rightarrow> 'a store" where
  "shuffleLoopStore h out a 0 = h"
| "shuffleLoopStore h out a (Suc n) =
     (let (a', x) = rand a;
          j = nat \<lfloor>x * of_nat (Suc n + 1)\<rfloor>;
          vj = readCell h out j;
          vi = readCell h out (Suc n);
          h = writeCell h out (Suc n) vj;
          h = writeCell h out j vi
      in shuffleLoopStore h out a' n)"

definition seededShuffleStore :: "'a store \<Rightarrow> nat \<Rightarrow> int \<Rightarrow> ('a store \<times> nat) option" where
  "seededShuffleStore h arr seed =
     (case slice h arr of
        None \<Rightarrow> None
      | Some (h', out) \<Rightarrow>
          (let n = (case cells h' out of Some xs \<Rightarrow> length xs | None \<Rightarrow> 0)
           in Some (shuffleLoopStore h' out (mulberry32 seed) (n - 1), out)))"

section \<open>The tournament routes (functions/api)\<close>

subsection \<open>Stored state\<close>

text \<open>
  The rows of one tournament: its \<open>tournaments\<close> row, its \<open>tournament_bracket_state\<close>
  row (the two JSON columns parsed) and its \<open>tournament_tracks\<close> rows. Timestamps are
  numbers supplied by the caller (\<open>nowMs()\<close>). A ranked track is used through
  \<open>rt.rank\<close> and \<open>rt.trk.id\<close> only; its display data is left out.
\<close>

datatype SourceType = TopTracks | Playlist | PlaylistVs | Mood

datatype Status = WaitingForHost | WaitingForChallenger | Ready | InProgress | Completed

record RankedTrack =
  rank :: nat
  trkId :: string

record Tournament =
  sourceType :: SourceType
  status :: Status
  hostUserId :: "string option"
  challengerUserId :: "string option"
  hostPlaylistId :: "string option"
  challengerPlaylistId :: "string option"
  bracketSize :: nat
  seed :: int
  meshMode :: bool
  tUpdatedAt :: nat

record BracketState =
  tracksJson :: "string list"
  winnersJson :: WinnerMap
  completedAt :: "nat option"
  bUpdatedAt :: nat

record TrackRow =
  trackId :: string
  ownerUserId :: string
  rowRank :: nat
  createdAt :: nat

record Db =
  tournament :: "Tournament option"
  bracket :: "BracketState option"
  trackRows :: "TrackRow list"

subsection \<open>Sizing\<close>

text \<open>
  \<open>2 ** Math.floor(Math.log2(n))\<close>: the largest power of two up to \<open>n\<close>; for \<open>n = 0\<close>
  the logarithm is minus infinity and the power is \<open>0\<close>.
\<close>

definition pow2Floor :: "nat \<Rightarrow> nat" where
  "pow2Floor n = (if n = 0 then 0 else 2 ^ mathLog2 n)"

text \<open>\<open>uniqueById\<close> (and the same loop written inline in the playlist mode).\<close>

fun uniqueByIdLoop :: "RankedTrack list \<Rightarrow> string set \<Rightarrow> RankedTrack list \<Rightarrow> RankedTrack list" where
  "uniqueByIdLoop [] seen out = out"
| "uniqueByIdLoop (rt # rest) seen out =
     (if trkId rt \<in> seen then uniqueByIdLoop rest seen out
      else uniqueByIdLoop rest (insert (trkId rt) seen) (out @ [rt]))"

definition uniqueById :: "RankedTrack list \<Rightarrow> RankedTrack list" where
  "uniqueById arr = uniqueByIdLoop arr {} []"

text \<open>
  \<open>pickUnique\<close> adds to the set \<open>seen\<close> it is given, which the caller passes on to the
  next call: the set is returned with the picks.
\<close>

fun pickUniqueLoop ::
  "RankedTrack list \<Rightarrow> nat \<Rightarrow> string set \<Rightarrow> RankedTrack list \<Rightarrow> RankedTrack list \<times> string set" where
  "pickUniqueLoop [] want seen out = (out, seen)"
| "pickUniqueLoop (rt # rest) want seen out =
     (if length out \<ge> want then (out, seen)
      else if trkId rt \<in> seen then pickUniqueLoop rest want seen out
      else pickUniqueLoop rest want (insert (trkId rt) seen) (out @ [rt]))"

definition pickUnique :: "RankedTrack list \<Rightarrow> nat \<Rightarrow> string set \<Rightarrow> RankedTrack list \<times> string set" where
  "pickUnique tracks want seen = pickUniqueLoop tracks want seen []"

text \<open>One pass of the body of the \<open>while (true)\<close> loop, up to \<open>effectivePow2\<close>.\<close>

record SizingPass =
  hostPicked :: "RankedTrack list"
  challengerPicked :: "RankedTrack list"
  effective :: nat
  effectivePow2 :: nat

definition sizingPass :: "RankedTrack list \<Rightarrow> RankedTrack list \<Rightarrow> nat \<Rightarrow> SizingPass" where
  "sizingPass hostCandidates challengerCandidates perUser =
     (let (hp, seen) = pickUnique hostCandidates perUser {};
          (cp, seen) = pickUnique challengerCandidates perUser seen;
          eff = min (length hp) (length cp)
      in \<lparr>hostPicked = hp, challengerPicked = cp, effective = eff, effectivePow2 = pow2Floor eff\<rparr>)"

datatype Sizing = NotEnoughTracks | Sized nat "RankedTrack list" "RankedTrack list"

text \<open>
  The \<open>while (true)\<close> loop of the two dual-source modes. \<open>None\<close> stands for a loop that
  never leaves.
\<close>

partial_function (option) sizingLoop ::
  "RankedTrack list \<Rightarrow> RankedTrack list \<Rightarrow> nat \<Rightarrow> Sizing option" where
  "sizingLoop hostCandidates challengerCandidates perUser =
     (if effectivePow2 (sizingPass hostCandidates challengerCandidates perUser) < 4
      then Some NotEnoughTracks
      else if effectivePow2 (sizingPass hostCandidates challengerCandidates perUser) = perUser
      then Some (Sized perUser
                  (take perUser (hostPicked (sizingPass hostCandidates challengerCandidates perUser)))
                  (take perUser (challengerPicked (sizingPass hostCandidates challengerCandidates perUser))))
      else sizingLoop hostCandidates challengerCandidates
             (effectivePow2 (sizingPass hostCandidates challengerCandidates perUser)))"

definition dualSizing :: "nat \<Rightarrow> RankedTrack list \<Rightarrow> RankedTrack list \<Rightarrow> Sizing option" where
  "dualSizing configuredSize hostCandidates challengerCandidates =
     sizingLoop hostCandidates challengerCandidates (configuredSize div 2)"

subsection \<open>POST /tournaments/:id/start\<close>

datatype StartResponse =
    StartOk | NotFound | TournamentNotReady | PlaylistNotSelected | NotEnoughTracksResp
  | Unauthorized | Forbidden | StartHangs

text \<open>
  What the route gets from outside: the signed-in user (\<open>requireUser\<close>), the tracks the
  music service returns for a playlist or for a user's top tracks, and the clock.
\<close>

record Outside =
  sessionUser :: "string option"
  fetchPlaylistTracks :: "string \<Rightarrow> string \<Rightarrow> RankedTrack list"
  fetchUserTopTracks :: "string \<Rightarrow> RankedTrack list"
  nowMs :: nat

definition trackRowsOf :: "string \<Rightarrow> nat \<Rightarrow> RankedTrack list \<Rightarrow> TrackRow list" where
  "trackRowsOf owner now rts =
     map (\<lambda>rt. \<lparr>trackId = trkId rt, ownerUserId = owner, rowRank = rank rt, createdAt = now\<rparr>) rts"

text \<open>The alternating placement \<open>out.push(hostIds[i], challengerIds[i])\<close> for \<open>i < perUser\<close>.\<close>

definition interleave :: "string list \<Rightarrow> string list \<Rightarrow> nat \<Rightarrow> string list" where
  "interleave hostIds challengerIds perUser =
     concat (map (\<lambda>i. [hostIds ! i, challengerIds ! i]) [0 ..< perUser])"

text \<open>
  The tail both dual-source modes share: delete the old rows, insert the picked tracks,
  shuffle each side, place them, insert a bracket row with an empty winners map and set
  the status.
\<close>

definition materialize ::
  "Db \<Rightarrow> Tournament \<Rightarrow> nat \<Rightarrow> string \<Rightarrow> string \<Rightarrow> nat \<Rightarrow>
   RankedTrack list \<Rightarrow> RankedTrack list \<Rightarrow> Db" where
  "materialize db t now hostId challengerId perUser hostTracks challengerTracks =
     (let hostIds = seededShuffle (map trkId hostTracks) (seed t XOR 0x13579bdf);
          challengerIds = seededShuffle (map trkId challengerTracks) (seed t XOR 0x2468ace0);
          bracketTracks =
            (if meshMode t
             then seededShuffle (take perUser hostIds @ take perUser challengerIds)
                    (seed t XOR 0x9e3779b9)
             else interleave hostIds challengerIds perUser)
      in \<lparr>tournament = Some (t\<lparr>status := InProgress, bracketSize := perUser * 2, tUpdatedAt := now\<rparr>),
          bracket = Some \<lparr>tracksJson = bracketTracks, winnersJson = Map.empty,
                           completedAt = None, bUpdatedAt = now\<rparr>,
          trackRows = trackRowsOf hostId now hostTracks @ trackRowsOf challengerId now challengerTracks\<rparr>)"

definition startPlaylist :: "Outside \<Rightarrow> Db \<Rightarrow> Tournament \<Rightarrow> StartResponse \<times> Db" where
  "startPlaylist env db t =
     (case hostUserId t of
        None \<Rightarrow> (TournamentNotReady, db)
      | Some hostId \<Rightarrow>
          if status t = InProgress \<or> status t = Completed then (StartOk, db)
          else
            (case hostPlaylistId t of
               None \<Rightarrow> (PlaylistNotSelected, db)
             | Some playlistId \<Rightarrow>
                 (let unique = uniqueById (fetchPlaylistTracks env hostId playlistId);
                      requested = min (bracketSize t) (length unique);
                      bracketSize' = pow2Floor requested
                  in if bracketSize' < 8 then (NotEnoughTracksResp, db)
                     else
                       (let selected = take bracketSize' unique;
                            bracketTracks = seededShuffle (map trkId selected) (seed t XOR 0x13579bdf)
                        in (StartOk,
                            \<lparr>tournament = Some (t\<lparr>status := InProgress, bracketSize := bracketSize',
                                                    tUpdatedAt := nowMs env\<rparr>),
                             bracket = Some \<lparr>tracksJson = bracketTracks, winnersJson = Map.empty,
                                              completedAt = None, bUpdatedAt = nowMs env\<rparr>,
                             trackRows = trackRowsOf hostId (nowMs env) selected\<rparr>)))))"

definition startPlaylistVs :: "Outside \<Rightarrow> Db \<Rightarrow> Tournament \<Rightarrow> string \<Rightarrow> StartResponse \<times> Db" where
  "startPlaylistVs env db t hostId =
     (if status t = InProgress \<or> status t = Completed then (StartOk, db)
      else
        (case challengerUserId t of
           None \<Rightarrow> (TournamentNotReady, db)
         | Some challengerId \<Rightarrow>
             (case (hostPlaylistId t, challengerPlaylistId t) of
                (Some hostPl, Some challengerPl) \<Rightarrow>
                  (let hostUnique = uniqueById (fetchPlaylistTracks env hostId hostPl);
                       challengerUnique = uniqueById (fetchPlaylistTracks env challengerId challengerPl)
                   in case dualSizing (bracketSize t) hostUnique challengerUnique of
                        None \<Rightarrow> (StartHangs, db)
                      | Some NotEnoughTracks \<Rightarrow> (NotEnoughTracksResp, db)
                      | Some (Sized perUser hostTracks challengerTracks) \<Rightarrow>
                          if perUser * 2 < 8 then (NotEnoughTracksResp, db)
                          else (StartOk, materialize db t (nowMs env) hostId challengerId perUser
                                           hostTracks challengerTracks))
              | _ \<Rightarrow> (PlaylistNotSelected, db))))"

definition startTopTracks :: "Outside \<Rightarrow> Db \<Rightarrow> Tournament \<Rightarrow> string \<Rightarrow> StartResponse \<times> Db" where
  "startTopTracks env db t hostId =
     (case challengerUserId t of
        None \<Rightarrow> (TournamentNotReady, db)
      | Some challengerId \<Rightarrow>
          (case dualSizing (bracketSize t) (fetchUserTopTracks env hostId)
                  (fetchUserTopTracks env challengerId) of
             None \<Rightarrow> (StartHangs, db)
           | Some NotEnoughTracks \<Rightarrow> (NotEnoughTracksResp, db)
           | Some (Sized perUser hostTracks challengerTracks) \<Rightarrow>
               (StartOk, materialize db t (nowMs env) hostId challengerId perUser
                           hostTracks challengerTracks)))"

definition postStart :: "Outside \<Rightarrow> Db \<Rightarrow> StartResponse \<times> Db" where
  "postStart env db =
     (case tournament db of
        None \<Rightarrow> (NotFound, db)
      | Some t \<Rightarrow>
          if sourceType t = Playlist then startPlaylist env db t
          else
            (case sessionUser env of
               None \<Rightarrow> (Unauthorized, db)
             | Some user \<Rightarrow>
                 (case hostUserId t of
                    None \<Rightarrow> (TournamentNotReady, db)
                  | Some hostId \<Rightarrow>
                      (let isHost = (user = hostId);
                           isChallenger = (case challengerUserId t of
                                             Some c \<Rightarrow> user = c | None \<Rightarrow> False)
                       in if \<not> isHost \<and> \<not> isChallenger then (Forbidden, db)
                          else if sourceType t = PlaylistVs then startPlaylistVs env db t hostId
                          else startTopTracks env db t hostId))))"

subsection \<open>POST /tournaments/:id/vote\<close>



text \<open>
  The states the vote route can bring a tournament to: any state whose winners map is
  empty (what the start route stores, or no bracket at all), and every state a vote
  request leads to from there.
\<close>

definition winnersOf :: "Db \<Rightarrow> WinnerMap" where
  "winnersOf db = (case bracket db of None \<Rightarrow> Map.empty | Some b \<Rightarrow> winnersJson b)"


section \<open>Bracket states, in the words of the specification\<close>

text \<open>
  A match has a recorded winner when its key holds a non-empty identifier; it is open
  when it has none and its participants are resolvable; it is decided when it has both.
\<close>

definition recorded :: "WinnerMap \<Rightarrow> nat \<Rightarrow> nat \<Rightarrow> bool" where
  "recorded winners r m = truthy (winners (matchKey (int r) (int m)))"

definition openMatch :: "nat \<Rightarrow> string list \<Rightarrow> WinnerMap \<Rightarrow> nat \<Rightarrow> nat \<Rightarrow> bool" where
  "openMatch sz tracks winners r m =
     (\<not> recorded winners r m
      \<and> resolveMatchParticipants sz tracks winners (int r) (int m) \<noteq> None)"

definition decided :: "nat \<Rightarrow> string list \<Rightarrow> WinnerMap \<Rightarrow> nat \<Rightarrow> nat \<Rightarrow> bool" where
  "decided sz tracks winners r m =
     (resolveMatchParticipants sz tracks winners (int r) (int m) \<noteq> None
      \<and> recorded winners r m)"

text \<open>
  The invariant of the winners map in a bracket of \<open>k\<close> rounds: a match of a round
  \<open>r > 0\<close> has a recorded winner only when both its feeder matches have one.
\<close>

definition feedersRecorded :: "nat \<Rightarrow> WinnerMap \<Rightarrow> bool" where
  "feedersRecorded k winners =
     (\<forall>r \<in> set [1 ..< k]. \<forall>m \<in> set [0 ..< 2 ^ (k - r - 1)].
        recorded winners r m \<longrightarrow>
          recorded winners (r - 1) (2 * m) \<and> recorded winners (r - 1) (2 * m + 1))"

text \<open>A bracket of \<open>k\<close> rounds is fully decided when every match of every round is.\<close>

definition fullyDecided :: "nat \<Rightarrow> string list \<Rightarrow> WinnerMap \<Rightarrow> bool" where
  "fullyDecided k tracks winners =
     (\<forall>r \<in> set [0 ..< k]. \<forall>m \<in> set [0 ..< 2 ^ (k - r - 1)].
        decided (2 ^ k) tracks winners r m)"

definition winnerOf :: "WinnerMap \<Rightarrow> nat \<Rightarrow> nat \<Rightarrow> string" where
  "winnerOf winners r m = (case winners (matchKey (int r) (int m)) of Some w \<Rightarrow> w | None \<Rightarrow> [])"

text \<open>The loser of a match: the participant that is not the match's winner.\<close>

definition loserOf :: "nat \<Rightarrow> string list \<Rightarrow> WinnerMap \<Rightarrow> nat \<Rightarrow> nat \<Rightarrow> string" where
  "loserOf sz tracks winners r m =
     (case resolveMatchParticipants sz tracks winners (int r) (int m) of
        Some (a, b) \<Rightarrow> if winnerOf winners r m = a then b else a
      | None \<Rightarrow> [])"

definition losersOfRound :: "nat \<Rightarrow> string list \<Rightarrow> WinnerMap \<Rightarrow> nat \<Rightarrow> string list" where
  "losersOfRound k tracks winners r =
     map (loserOf (2 ^ k) tracks winners r) [0 ..< 2 ^ (k - r - 1)]"

text \<open>
  The ranking as the specification words it: champion, runner-up, then the losers of
  the rounds \<open>k - 2\<close> down to \<open>0\<close>, each round in ascending match order.
\<close>

definition specRanking :: "nat \<Rightarrow> string list \<Rightarrow> WinnerMap \<Rightarrow> string list" where
  "specRanking k tracks winners =
     [winnerOf winners (k - 1) 0, loserOf (2 ^ k) tracks winners (k - 1) 0]
     @ concat (map (losersOfRound k tracks winners) (rev [0 ..< k - 1]))"

text \<open>Every recorded winner is one of the two resolved participants of its match.\<close>

definition winnersAreParticipants :: "nat \<Rightarrow> string list \<Rightarrow> WinnerMap \<Rightarrow> bool" where
  "winnersAreParticipants k tracks winners =
     (\<forall>r \<in> set [0 ..< k]. \<forall>m \<in> set [0 ..< 2 ^ (k - r - 1)].
        (case resolveMatchParticipants (2 ^ k) tracks winners (int r) (int m) of
           Some (a, b) \<Rightarrow> winnerOf winners r m = a \<or> winnerOf winners r m = b
         | None \<Rightarrow> False))"

text \<open>
  The entrants of round \<open>r\<close>, in bracket order: the track slots for round 0, the
  recorded winners of round \<open>r - 1\<close> after that.
\<close>

definition entrants :: "nat \<Rightarrow> string list \<Rightarrow> WinnerMap \<Rightarrow> nat \<Rightarrow> string list" where
  "entrants k tracks winners r =
     (if r = 0 then tracks else map (winnerOf winners (r - 1)) [0 ..< 2 ^ (k - r)])"


text \<open>A bracket of four tracks as the start route stores it, before any vote.\<close>

definition exampleDb :: Db where
  "exampleDb = \<lparr>tournament = None,
      bracket = Some \<lparr>tracksJson = [''a'', ''b'', ''c'', ''d''], winnersJson = Map.empty,
                       completedAt = None, bUpdatedAt = 0\<rparr>,
      trackRows = []\<rparr>"

text \<open>
  Thirty host candidates and nine challenger candidates with no identifier in common,
  and a tournament of the top-tracks mode that is already in progress.
\<close>

definition exampleHost :: "RankedTrack list" where
  "exampleHost = map (\<lambda>i. \<lparr>rank = Suc i, trkId = ''h'' @ natToString i\<rparr>) [0 ..< 30]"

definition exampleChallenger :: "RankedTrack list" where
  "exampleChallenger = map (\<lambda>i. \<lparr>rank = Suc i, trkId = ''c'' @ natToString i\<rparr>) [0 ..< 9]"

definition exampleTournament :: Tournament where
  "exampleTournament =
     \<lparr>sourceType = TopTracks, status = InProgress, hostUserId = Some ''host'',
      challengerUserId = Some ''guest'', hostPlaylistId = None, challengerPlaylistId = None,
      bracketSize = 8, seed = 1, meshMode = False, tUpdatedAt = 0\<rparr>"

text \<open>A store holding one array of four tracks at reference 0.\<close>

definition exampleStore :: "string store" where
  "exampleStore = \<lparr>cells = [0 \<mapsto> [''a'', ''b'', ''c'', ''d'']], fresh = 1\<rparr>"

text \<open>
  A start request by the host of the example tournament, with the service returning the
  example candidates, and the tournament's stored state after one vote.
\<close>

definition exampleOutside :: Outside where
  "exampleOutside =
     \<lparr>sessionUser = Some ''host'',
      fetchPlaylistTracks = (\<lambda>user playlist. []),
      fetchUserTopTracks = (\<lambda>user. if user = ''host'' then exampleHost else exampleChallenger),
      nowMs = 5\<rparr>"

definition startedDb :: Db where
  "startedDb =
     \<lparr>tournament = Some exampleTournament,
      bracket = Some \<lparr>tracksJson = [''h0'', ''c0'', ''h1'', ''c1'', ''h2'', ''c2'', ''h3'', ''c3''],
                       winnersJson = [''r0m0'' \<mapsto> ''h0''],
                       completedAt = None, bUpdatedAt = 1\<rparr>,
      trackRows = []\<rparr>"

section \<open>Match keys\<close>

lemma digitChar_inj: "a < 10 \<Longrightarrow> b < 10 \<Longrightarrow> digitChar a = digitChar b \<Longrightarrow> a = b"
proof -
  assume a: "a < 10" and b: "b < 10" and e: "digitChar a = digitChar b"
  have da: "a \<in> {0, 1, 2, 3, 4, 5, 6, 7, 8, 9}" using a by auto
  have db: "b \<in> {0, 1, 2, 3, 4, 5, 6, 7, 8, 9}" using b by auto
  show "a = b" using da db e by (auto simp: digitChar_def)
qed

lemma digitChar_digit: "d < 10 \<Longrightarrow> digitChar d \<in> set ''0123456789''"
  unfolding digitChar_def by (rule nth_mem) simp

lemma natToString_digits: "set (natToString n) \<subseteq> set ''0123456789''"
proof (induction n rule: natToString.induct)
  case (1 n)
  show ?case
  proof (cases "n < 10")
    case True
    then show ?thesis
      using digitChar_digit [of n] by (subst natToString.simps) simp
  next
    case False
    have "n mod 10 < 10" by simp
    then have "digitChar (n mod 10) \<in> set ''0123456789''" by (rule digitChar_digit)
    with False 1 show ?thesis
      by (subst natToString.simps) simp
  qed
qed

lemma natToString_nonempty: "natToString n \<noteq> []"
  by (subst natToString.simps) simp

lemma natToString_inj: "natToString n = natToString k \<Longrightarrow> n = k"
proof (induction n arbitrary: k rule: natToString.induct)
  case (1 n)
  show ?case
  proof (cases "n < 10")
    case n: True
    show ?thesis
    proof (cases "k < 10")
      case True
      with n 1(2) show ?thesis
        by (simp add: natToString.simps [of n] natToString.simps [of k] digitChar_inj)
    next
      case False
      with n 1(2) natToString_nonempty [of "k div 10"] show ?thesis
        by (simp add: natToString.simps [of n] natToString.simps [of k])
    qed
  next
    case n: False
    show ?thesis
    proof (cases "k < 10")
      case True
      with n 1(2) natToString_nonempty [of "n div 10"] show ?thesis
        by (simp add: natToString.simps [of n] natToString.simps [of k])
    next
      case False
      with n 1(2) have e: "natToString (n div 10) = natToString (k div 10)"
        and d: "digitChar (n mod 10) = digitChar (k mod 10)"
        by (simp_all add: natToString.simps [of n] natToString.simps [of k])
      from 1(1) [OF n e] have q: "n div 10 = k div 10" .
      have "n mod 10 = k mod 10"
        by (rule digitChar_inj [OF _ _ d]) simp_all
      with q show ?thesis
        by (metis div_mult_mod_eq)
    qed
  qed
qed

lemma natToString_no_m: "CHR ''m'' \<notin> set (natToString n)"
  using natToString_digits [of n] by auto

lemma natToString_no_minus: "CHR ''-'' \<notin> set (natToString n)"
  using natToString_digits [of n] by auto

lemma numberToString_no_m: "CHR ''m'' \<notin> set (numberToString i)"
  by (simp add: numberToString_def natToString_no_m)

lemma numberToString_inj: "numberToString i = numberToString j \<Longrightarrow> i = j"
proof -
  assume e: "numberToString i = numberToString j"
  have hd_nat: "\<And>n. hd (natToString n) \<noteq> CHR ''-''"
    using natToString_no_minus natToString_nonempty by (metis hd_in_set)
  show "i = j"
  proof (cases "i < 0")
    case i: True
    show ?thesis
    proof (cases "j < 0")
      case True
      with i e have "natToString (nat (- i)) = natToString (nat (- j))"
        by (simp add: numberToString_def)
      then have "nat (- i) = nat (- j)" by (rule natToString_inj)
      with i True show ?thesis by simp
    next
      case False
      with i e have "CHR ''-'' # natToString (nat (- i)) = natToString (nat j)"
        by (simp add: numberToString_def)
      then have "hd (natToString (nat j)) = CHR ''-''" by (metis list.sel(1))
      with hd_nat show ?thesis by blast
    qed
  next
    case i: False
    show ?thesis
    proof (cases "j < 0")
      case True
      with i e have "natToString (nat i) = CHR ''-'' # natToString (nat (- j))"
        by (simp add: numberToString_def)
      then have "hd (natToString (nat i)) = CHR ''-''" by (metis list.sel(1))
      with hd_nat show ?thesis by blast
    next
      case False
      with i e have "natToString (nat i) = natToString (nat j)"
        by (simp add: numberToString_def)
      then have "nat i = nat j" by (rule natToString_inj)
      with i False show ?thesis by simp
    qed
  qed
qed

lemma matchKey_inj: "matchKey r1 m1 = matchKey r2 m2 \<longleftrightarrow> r1 = r2 \<and> m1 = m2"
proof
  assume "matchKey r1 m1 = matchKey r2 m2"
  then have "numberToString r1 @ CHR ''m'' # numberToString m1
           = numberToString r2 @ CHR ''m'' # numberToString m2"
    by (simp add: matchKey_def)
  then have "numberToString r1 = numberToString r2 \<and> numberToString m1 = numberToString m2"
    using append_Cons_eq_iff [OF numberToString_no_m [of r1] numberToString_no_m [of m1]]
    by blast
  then show "r1 = r2 \<and> m1 = m2"
    by (blast dest: numberToString_inj)
next
  assume "r1 = r2 \<and> m1 = m2"
  then show "matchKey r1 m1 = matchKey r2 m2" by simp
qed

text \<open>
  Claim C10. For all non-negative integers \<open>r1\<close>, \<open>m1\<close>, \<open>r2\<close>, \<open>m2\<close>, equal keys
  \<open>matchKey r1 m1 = matchKey r2 m2\<close> force \<open>r1 = r2\<close> and \<open>m1 = m2\<close>: the text
  \<open>r{round}m{match}\<close> is an injective encoding, also across the boundary between one
  and two digits.
\<close>

theorem matchKey_injective:
  assumes "0 \<le> r1" and "0 \<le> m1" and "0 \<le> r2" and "0 \<le> m2"
  shows "matchKey r1 m1 = matchKey r2 m2 \<longleftrightarrow> r1 = r2 \<and> m1 = m2"
  by (rule matchKey_inj)

theorem matchKey_injective_witness:
  "matchKey 1 10 = ''r1m10'' \<and> matchKey 11 0 = ''r11m0'' \<and> matchKey 1 10 \<noteq> matchKey 11 0"
proof -
  have "matchKey 1 10 = matchKey 11 0 \<longleftrightarrow> (1::int) = 11 \<and> (10::int) = 0"
    by (rule matchKey_injective) simp_all
  then have "matchKey 1 10 \<noteq> matchKey 11 0" by simp
  moreover have "matchKey 1 10 = ''r1m10''"
    by (simp add: matchKey_def numberToString_def natToString.simps digitChar_def)
  moreover have "matchKey 11 0 = ''r11m0''"
    by (simp add: matchKey_def numberToString_def natToString.simps digitChar_def)
  ultimately show ?thesis by simp
qed

section \<open>Sizes that are powers of two\<close>

lemma isPowerOfTwo_pow2: "isPowerOfTwo (2 ^ k)"
proof -
  have "(2::nat) ^ k - 1 = mask k" by (simp add: mask_eq_exp_minus_1)
  moreover have "(2::nat) ^ k AND mask k = 0"
    by (rule bit_eqI) (auto simp: bit_simps)
  ultimately show ?thesis by (simp add: isPowerOfTwo_def)
qed

lemma mathLog2_pow2: "mathLog2 (2 ^ k) = k"
proof (induction k)
  case 0
  show ?case by (simp add: mathLog2.simps)
next
  case (Suc k)
  have "\<not> (2::nat) ^ Suc k < 2" by simp
  then show ?case using Suc by (subst mathLog2.simps) simp
qed

lemma totalRounds_pow2: "totalRounds (2 ^ k) = Inr k"
  by (simp add: totalRounds_def isPowerOfTwo_pow2 mathLog2_pow2)

lemma matchCount_pow2: "r < k \<Longrightarrow> matchCount (2 ^ k) r = 2 ^ (k - r - 1)"
proof -
  assume "r < k"
  then have "k = (k - r - 1) + (r + 1)" by simp
  then have "(2::rat) ^ k = 2 ^ (k - r - 1) * 2 ^ (r + 1)"
    by (metis power_add)
  then show ?thesis by (simp add: matchCount_def)
qed

lemma matchIndices_pow2: "r < k \<Longrightarrow> matchIndices (2 ^ k) r = [0 ..< 2 ^ (k - r - 1)]"
proof -
  assume r: "r < k"
  have "\<lceil>(2::rat) ^ (k - r - 1)\<rceil> = 2 ^ (k - r - 1)"
    by (metis ceiling_of_int of_int_numeral of_int_power)
  then show ?thesis
    by (simp add: matchIndices_def matchCount_pow2 [OF r] nat_power_eq)
qed

section \<open>Participants\<close>

lemma bothTruthy_Some:
  "bothTruthy x y = Some (a, b) \<longleftrightarrow> x = Some a \<and> y = Some b \<and> a \<noteq> [] \<and> b \<noteq> []"
  by (auto simp: bothTruthy_def split: option.splits)

lemma bothTruthy_None:
  "bothTruthy x y = None \<longleftrightarrow> \<not> truthy x \<or> \<not> truthy y"
  by (auto simp: bothTruthy_def truthy_def split: option.splits)




section \<open>The next open match\<close>

lemma upt_split:
  assumes "pre @ x # post = [0 ..< n]"
  shows "x = length pre \<and> x < n \<and> set pre = {0 ..< x}"
proof -
  have len: "length pre < n"
    using arg_cong [OF assms, of length] by simp
  have "(pre @ x # post) ! length pre = [0 ..< n] ! length pre"
    by (simp only: assms)
  with len have x: "x = length pre" by simp
  have "pre = take (length pre) (pre @ x # post)" by simp
  also have "\<dots> = take (length pre) [0 ..< n]" by (simp only: assms)
  also have "\<dots> = [0 ..< length pre]" using len by (simp add: take_upt)
  finally have "set pre = {0 ..< length pre}" by (metis atLeastLessThan_upt)
  with x len show ?thesis by simp
qed

lemma scanMatches_None:
  "scanMatches sz tracks winners r ms = None \<longleftrightarrow> (\<forall>m \<in> set ms. \<not> openMatch sz tracks winners r m)"
  by (induction ms) (auto simp: openMatch_def recorded_def split: option.splits)

lemma scanMatches_Some:
  "scanMatches sz tracks winners r ms = Some mr \<Longrightarrow>
     \<exists>pre post. ms = pre @ mrMatch mr # post
       \<and> (\<forall>m \<in> set pre. \<not> openMatch sz tracks winners r m)
       \<and> mrRound mr = r \<and> \<not> recorded winners r (mrMatch mr)
       \<and> resolveMatchParticipants sz tracks winners (int r) (int (mrMatch mr)) = Some (mrA mr, mrB mr)"
proof (induction ms)
  case Nil
  then show ?case by simp
next
  case (Cons m ms)
  show ?case
  proof (cases "openMatch sz tracks winners r m")
    case True
    then obtain a b where ab: "resolveMatchParticipants sz tracks winners (int r) (int m) = Some (a, b)"
      and nr: "\<not> recorded winners r m"
      by (auto simp: openMatch_def)
    with Cons.prems have "mr = \<lparr>mrRound = r, mrMatch = m, mrA = a, mrB = b\<rparr>"
      by (simp add: recorded_def)
    with ab nr have "m # ms = [] @ mrMatch mr # ms
       \<and> (\<forall>m \<in> set []. \<not> openMatch sz tracks winners r m)
       \<and> mrRound mr = r \<and> \<not> recorded winners r (mrMatch mr)
       \<and> resolveMatchParticipants sz tracks winners (int r) (int (mrMatch mr)) = Some (mrA mr, mrB mr)"
      by simp
    then show ?thesis by blast
  next
    case False
    with Cons.prems have "scanMatches sz tracks winners r ms = Some mr"
      by (auto simp: openMatch_def recorded_def split: option.splits if_splits)
    from Cons.IH [OF this] obtain pre post where
      p: "ms = pre @ mrMatch mr # post"
        "\<forall>m \<in> set pre. \<not> openMatch sz tracks winners r m"
        "mrRound mr = r" "\<not> recorded winners r (mrMatch mr)"
        "resolveMatchParticipants sz tracks winners (int r) (int (mrMatch mr)) = Some (mrA mr, mrB mr)"
      by blast
    from p False have "m # ms = (m # pre) @ mrMatch mr # post
       \<and> (\<forall>m \<in> set (m # pre). \<not> openMatch sz tracks winners r m)
       \<and> mrRound mr = r \<and> \<not> recorded winners r (mrMatch mr)
       \<and> resolveMatchParticipants sz tracks winners (int r) (int (mrMatch mr)) = Some (mrA mr, mrB mr)"
      by simp
    then show ?thesis by blast
  qed
qed

lemma scanRounds_None:
  "scanRounds sz tracks winners rs = None \<longleftrightarrow>
     (\<forall>r \<in> set rs. \<forall>m \<in> set (matchIndices sz r). \<not> openMatch sz tracks winners r m)"
proof (induction rs)
  case Nil
  show ?case by simp
next
  case (Cons r rs)
  show ?case
  proof (cases "scanMatches sz tracks winners r (matchIndices sz r)")
    case None
    then have "\<forall>m \<in> set (matchIndices sz r). \<not> openMatch sz tracks winners r m"
      by (simp only: scanMatches_None)
    with None Cons.IH show ?thesis by simp
  next
    case (Some found)
    then have "\<not> (\<forall>m \<in> set (matchIndices sz r). \<not> openMatch sz tracks winners r m)"
      by (simp only: scanMatches_None [symmetric]) simp
    with Some show ?thesis by simp
  qed
qed

lemma scanRounds_Some:
  "scanRounds sz tracks winners rs = Some mr \<Longrightarrow>
     \<exists>pre post. rs = pre @ mrRound mr # post
       \<and> (\<forall>r \<in> set pre. \<forall>m \<in> set (matchIndices sz r). \<not> openMatch sz tracks winners r m)
       \<and> scanMatches sz tracks winners (mrRound mr) (matchIndices sz (mrRound mr)) = Some mr"
proof (induction rs)
  case Nil
  then show ?case by simp
next
  case (Cons r rs)
  show ?case
  proof (cases "scanMatches sz tracks winners r (matchIndices sz r)")
    case None
    with Cons.prems have "scanRounds sz tracks winners rs = Some mr" by simp
    from Cons.IH [OF this] obtain pre post where
      p: "rs = pre @ mrRound mr # post"
        "\<forall>r \<in> set pre. \<forall>m \<in> set (matchIndices sz r). \<not> openMatch sz tracks winners r m"
        "scanMatches sz tracks winners (mrRound mr) (matchIndices sz (mrRound mr)) = Some mr"
      by blast
    from p None have "r # rs = (r # pre) @ mrRound mr # post
       \<and> (\<forall>r \<in> set (r # pre). \<forall>m \<in> set (matchIndices sz r). \<not> openMatch sz tracks winners r m)
       \<and> scanMatches sz tracks winners (mrRound mr) (matchIndices sz (mrRound mr)) = Some mr"
      by (simp add: scanMatches_None)
    then show ?thesis by blast
  next
    case (Some found)
    with Cons.prems have f: "found = mr" by simp
    from scanMatches_Some [OF Some] have "mrRound found = r" by blast
    with f Some have "r # rs = [] @ mrRound mr # rs
       \<and> (\<forall>r \<in> set []. \<forall>m \<in> set (matchIndices sz r). \<not> openMatch sz tracks winners r m)
       \<and> scanMatches sz tracks winners (mrRound mr) (matchIndices sz (mrRound mr)) = Some mr"
      by simp
    then show ?thesis by blast
  qed
qed

lemma allRecorded:
  assumes f: "feedersRecorded k winners" and fin: "recorded winners (k - 1) 0"
  shows "d < k \<Longrightarrow> m < 2 ^ d \<Longrightarrow> recorded winners (k - 1 - d) m"
proof (induction d arbitrary: m)
  case 0
  with fin show ?case by simp
next
  case (Suc d)
  let ?r = "k - 1 - d"
  have dk: "d < k" using Suc.prems by simp
  have m2: "m div 2 < 2 ^ d" using Suc.prems by simp
  have up: "recorded winners ?r (m div 2)" by (rule Suc.IH [OF dk m2])
  have r1: "?r \<in> set [1 ..< k]" using Suc.prems by auto
  have kd: "k - ?r - 1 = d" using Suc.prems by simp
  have mm: "m div 2 \<in> set [0 ..< 2 ^ (k - ?r - 1)]" using m2 kd by simp
  from f r1 mm up have both:
    "recorded winners (?r - 1) (2 * (m div 2)) \<and> recorded winners (?r - 1) (2 * (m div 2) + 1)"
    unfolding feedersRecorded_def by blast
  have "m = 2 * (m div 2) \<or> m = 2 * (m div 2) + 1" by presburger
  moreover have "?r - 1 = k - 1 - Suc d" by simp
  ultimately show ?case using both by metis
qed

text \<open>
  Claim C4, as the code has it. For a size \<open>2^k\<close> and a track list of that length,
  with any winners map, \<open>nextOpenMatch\<close> returns without an error; a match it returns is
  in range, has no recorded winner, comes with its resolved participants, and is the
  least (round first, then match index) among the matches that have no recorded winner
  and resolvable participants; when it returns none, there is no such match. It returns
  none once the final match's winner is recorded, provided the winners map keeps the
  invariant that a recorded match has both its feeders recorded.
\<close>

theorem nextOpenMatch_least:
  assumes sz: "sz = 2 ^ k" and len: "length tracks = sz"
  shows "\<exists>res. nextOpenMatch sz tracks winners = Inr res
     \<and> (\<forall>mr. res = Some mr \<longrightarrow>
           mrRound mr < k \<and> mrMatch mr < 2 ^ (k - mrRound mr - 1)
         \<and> \<not> recorded winners (mrRound mr) (mrMatch mr)
         \<and> resolveMatchParticipants sz tracks winners (int (mrRound mr)) (int (mrMatch mr))
             = Some (mrA mr, mrB mr)
         \<and> (\<forall>r m. r < k \<and> m < 2 ^ (k - r - 1) \<and> openMatch sz tracks winners r m \<longrightarrow>
               mrRound mr < r \<or> (mrRound mr = r \<and> mrMatch mr \<le> m)))
     \<and> (res = None \<longrightarrow>
           (\<forall>r m. r < k \<and> m < 2 ^ (k - r - 1) \<longrightarrow> \<not> openMatch sz tracks winners r m))
     \<and> (feedersRecorded k winners \<and> truthy (winners (matchKey (int k - 1) 0)) \<longrightarrow> res = None)"
proof -
  let ?res = "scanRounds sz tracks winners [0 ..< k]"
  have eq: "nextOpenMatch sz tracks winners = Inr ?res"
    by (simp add: nextOpenMatch_def sz totalRounds_pow2)
  have idx: "\<And>r. r < k \<Longrightarrow> matchIndices sz r = [0 ..< 2 ^ (k - r - 1)]"
    by (simp add: sz matchIndices_pow2)
  have some: "mrRound mr < k \<and> mrMatch mr < 2 ^ (k - mrRound mr - 1)
         \<and> \<not> recorded winners (mrRound mr) (mrMatch mr)
         \<and> resolveMatchParticipants sz tracks winners (int (mrRound mr)) (int (mrMatch mr))
             = Some (mrA mr, mrB mr)
         \<and> (\<forall>r m. r < k \<and> m < 2 ^ (k - r - 1) \<and> openMatch sz tracks winners r m \<longrightarrow>
               mrRound mr < r \<or> (mrRound mr = r \<and> mrMatch mr \<le> m))"
    if s: "?res = Some mr" for mr
  proof -
    from scanRounds_Some [OF s] obtain pre post where
      rs: "pre @ mrRound mr # post = [0 ..< k]"
      and before: "\<forall>r \<in> set pre. \<forall>m \<in> set (matchIndices sz r). \<not> openMatch sz tracks winners r m"
      and sm: "scanMatches sz tracks winners (mrRound mr) (matchIndices sz (mrRound mr)) = Some mr"
      by metis
    from upt_split [OF rs] have rk: "mrRound mr < k" and pre: "set pre = {0 ..< mrRound mr}"
      by simp_all
    from scanMatches_Some [OF sm] obtain pre' post' where
      ms: "pre' @ mrMatch mr # post' = matchIndices sz (mrRound mr)"
      and before': "\<forall>m \<in> set pre'. \<not> openMatch sz tracks winners (mrRound mr) m"
      and nr: "\<not> recorded winners (mrRound mr) (mrMatch mr)"
      and res: "resolveMatchParticipants sz tracks winners (int (mrRound mr)) (int (mrMatch mr))
                 = Some (mrA mr, mrB mr)"
      by metis
    from ms idx [OF rk] have "pre' @ mrMatch mr # post' = [0 ..< 2 ^ (k - mrRound mr - 1)]"
      by simp
    from upt_split [OF this] have mk: "mrMatch mr < 2 ^ (k - mrRound mr - 1)"
      and pre': "set pre' = {0 ..< mrMatch mr}"
      by simp_all
    have least: "mrRound mr < r \<or> (mrRound mr = r \<and> mrMatch mr \<le> m)"
      if h: "r < k \<and> m < 2 ^ (k - r - 1) \<and> openMatch sz tracks winners r m" for r m
    proof (rule ccontr)
      assume "\<not> (mrRound mr < r \<or> (mrRound mr = r \<and> mrMatch mr \<le> m))"
      then consider "r < mrRound mr" | "r = mrRound mr" "m < mrMatch mr"
        by linarith
      then show False
      proof cases
        case 1
        then have "r \<in> set pre" using pre by simp
        moreover have "m \<in> set (matchIndices sz r)" using h idx by simp
        ultimately show False using before h by blast
      next
        case 2
        then have "m \<in> set pre'" using pre' by simp
        with before' 2 h show False by blast
      qed
    qed
    from rk mk nr res least show ?thesis by blast
  qed
  have none: "\<forall>r m. r < k \<and> m < 2 ^ (k - r - 1) \<longrightarrow> \<not> openMatch sz tracks winners r m"
    if n: "?res = None"
  proof (intro allI impI)
    fix r m :: nat
    assume h: "r < k \<and> m < 2 ^ (k - r - 1)"
    then have "r \<in> set [0 ..< k]" "m \<in> set (matchIndices sz r)" using idx by simp_all
    with n show "\<not> openMatch sz tracks winners r m"
      by (simp only: scanRounds_None) blast
  qed
  have finished: "?res = None"
    if h: "feedersRecorded k winners \<and> truthy (winners (matchKey (int k - 1) 0))"
  proof -
    have "\<not> openMatch sz tracks winners r m"
      if r: "r \<in> set [0 ..< k]" and m: "m \<in> set (matchIndices sz r)" for r m
    proof -
      from r have rk: "r < k" by simp
      then have k1: "int (k - 1) = int k - 1" by simp
      with h have fin: "recorded winners (k - 1) 0" by (simp add: recorded_def)
      from m idx [OF rk] have "m < 2 ^ (k - r - 1)" by simp
      moreover have "k - r - 1 < k" using rk by simp
      ultimately have "recorded winners (k - 1 - (k - r - 1)) m"
        using allRecorded h fin by blast
      moreover have "k - 1 - (k - r - 1) = r" using rk by simp
      ultimately show ?thesis by (simp add: openMatch_def)
    qed
    then show ?thesis by (simp only: scanRounds_None) blast
  qed
  have A: "\<forall>mr. ?res = Some mr \<longrightarrow>
           mrRound mr < k \<and> mrMatch mr < 2 ^ (k - mrRound mr - 1)
         \<and> \<not> recorded winners (mrRound mr) (mrMatch mr)
         \<and> resolveMatchParticipants sz tracks winners (int (mrRound mr)) (int (mrMatch mr))
             = Some (mrA mr, mrB mr)
         \<and> (\<forall>r m. r < k \<and> m < 2 ^ (k - r - 1) \<and> openMatch sz tracks winners r m \<longrightarrow>
               mrRound mr < r \<or> (mrRound mr = r \<and> mrMatch mr \<le> m))"
    by (intro allI impI) (rule some)
  have B: "?res = None \<longrightarrow>
           (\<forall>r m. r < k \<and> m < 2 ^ (k - r - 1) \<longrightarrow> \<not> openMatch sz tracks winners r m)"
    by (intro impI) (rule none)
  have C: "feedersRecorded k winners \<and> truthy (winners (matchKey (int k - 1) 0)) \<longrightarrow> ?res = None"
    by (intro impI) (rule finished)
  show ?thesis
    by (rule exI [of _ ?res]) (intro conjI eq A B C)
qed


lemmas eval_simps = nextOpenMatch_def totalRounds_def isPowerOfTwo_def mathLog2.simps
  matchIndices_def matchCount_def matchKey_def numberToString_def natToString.simps digitChar_def
  resolveMatchParticipants_def bothTruthy_def arrayGet_def truthy_def upt_rec

text \<open>
  Claim C4 as stated, for any winners map, fails in its last part: a map that records
  only the final of a bracket of four leaves round 0 match 0 open, and it is returned.
  A map may also hold the empty string at a key; the test \<open>winners[k]\<close> takes such a
  key for one without a winner, and the match is returned.
\<close>

theorem nextOpenMatch_final_counterexample:
  "truthy ([matchKey 1 0 \<mapsto> ''a''] (matchKey 1 0))
   \<and> nextOpenMatch 4 [''a'', ''b'', ''c'', ''d''] [matchKey 1 0 \<mapsto> ''a'']
       = Inr (Some \<lparr>mrRound = 0, mrMatch = 0, mrA = ''a'', mrB = ''b''\<rparr>)
   \<and> [matchKey 0 0 \<mapsto> ''''] (matchKey 0 0) = Some ''''
   \<and> nextOpenMatch 4 [''a'', ''b'', ''c'', ''d''] [matchKey 0 0 \<mapsto> '''']
       = Inr (Some \<lparr>mrRound = 0, mrMatch = 0, mrA = ''a'', mrB = ''b''\<rparr>)"
  by (simp add: eval_simps)

theorem nextOpenMatch_least_witness:
  "nextOpenMatch 4 [''a'', ''b'', ''c'', ''d'']
      [matchKey 0 0 \<mapsto> ''a'', matchKey 0 1 \<mapsto> ''d'', matchKey 1 0 \<mapsto> ''d''] = Inr None
   \<and> nextOpenMatch 4 [''a'', ''b'', ''c'', ''d''] [matchKey 0 0 \<mapsto> ''a'']
       = Inr (Some \<lparr>mrRound = 0, mrMatch = 1, mrA = ''c'', mrB = ''d''\<rparr>)
   \<and> \<not> recorded [matchKey 0 0 \<mapsto> ''a''] 0 1"
proof -
  let ?T = "[''a'', ''b'', ''c'', ''d'']"
  let ?W = "[matchKey 0 0 \<mapsto> ''a'', matchKey 0 1 \<mapsto> ''d'', matchKey 1 0 \<mapsto> ''d'']"
  let ?V = "[matchKey 0 0 \<mapsto> ''a'']"
  have sz: "(4::nat) = 2 ^ 2" and len: "length ?T = 4" by simp_all
  have f: "feedersRecorded 2 ?W \<and> truthy (?W (matchKey (int 2 - 1) 0))"
    by (simp add: feedersRecorded_def recorded_def eval_simps)
  from nextOpenMatch_least [OF sz len, of ?W] f
  have 1: "nextOpenMatch 4 ?T ?W = Inr None" by auto
  have e: "nextOpenMatch 4 ?T ?V = Inr (Some \<lparr>mrRound = 0, mrMatch = 1, mrA = ''c'', mrB = ''d''\<rparr>)"
    by (simp add: eval_simps)
  from nextOpenMatch_least [OF sz len, of ?V] e
  have 2: "\<not> recorded ?V 0 1" by auto
  from 1 e 2 show ?thesis by simp
qed

section \<open>The ranking\<close>

lemma resolve_Some_nonempty:
  "resolveMatchParticipants sz tracks winners r m = Some (a, b) \<Longrightarrow> a \<noteq> [] \<and> b \<noteq> []"
  by (auto simp: resolveMatchParticipants_def bothTruthy_Some Let_def split: if_splits)

lemma decided_cases:
  assumes "decided sz tracks winners r m"
  obtains a b win where
    "resolveMatchParticipants sz tracks winners (int r) (int m) = Some (a, b)"
    "winners (matchKey (int r) (int m)) = Some win" "win \<noteq> []"
    "winnerOf winners r m = win"
    "loserOf sz tracks winners r m = (if win = a then b else a)"
  using assms
  by (auto simp: decided_def recorded_def truthy_def winnerOf_def loserOf_def split: option.splits)

lemma rankMatches_undecided:
  "m \<in> set ms \<Longrightarrow> \<not> decided sz tracks winners r m \<Longrightarrow>
   rankMatches sz tracks winners rounds r ms st = None"
proof (induction ms arbitrary: st)
  case Nil
  then show ?case by simp
next
  case (Cons x ms)
  show ?case
  proof (cases "decided sz tracks winners r x")
    case True
    with Cons.prems have "m \<in> set ms" by auto
    from Cons.IH [OF this Cons.prems(2)] True show ?thesis
      by (auto elim!: decided_cases simp: Let_def)
  next
    case False
    then show ?thesis
      by (auto simp: decided_def recorded_def truthy_def split: option.splits)
  qed
qed

lemma rankRounds_undecided:
  "r \<in> set rs \<Longrightarrow> m \<in> set (matchIndices sz r) \<Longrightarrow> \<not> decided sz tracks winners r m \<Longrightarrow>
   rankRounds sz tracks winners rounds rs st = None"
proof (induction rs arbitrary: st)
  case Nil
  then show ?case by simp
next
  case (Cons x rs)
  show ?case
  proof (cases "rankMatches sz tracks winners rounds x (matchIndices sz x) st")
    case None
    then show ?thesis by simp
  next
    case (Some st')
    have "x \<noteq> r"
    proof
      assume xr: "x = r"
      have "rankMatches sz tracks winners rounds r (matchIndices sz r) st = None"
        by (rule rankMatches_undecided [OF Cons.prems(2,3)])
      with Some xr show False by simp
    qed
    with Cons.prems have "r \<in> set rs" by simp
    from Cons.IH [OF this Cons.prems(2,3)] Some show ?thesis by simp
  qed
qed

lemma rankMatches_decided:
  "\<forall>m \<in> set ms. decided sz tracks winners r m \<Longrightarrow> r < length lbr \<Longrightarrow>
   rankMatches sz tracks winners rounds r ms (lbr, ru) =
     Some (if int r = int rounds - 1
           then (lbr, if ms = [] then ru else Some (loserOf sz tracks winners r (last ms)))
           else (lbr[r := lbr ! r @ map (loserOf sz tracks winners r) ms], ru))"
proof (induction ms arbitrary: lbr ru)
  case Nil
  then show ?case by simp
next
  case (Cons m ms)
  from Cons.prems have dm: "decided sz tracks winners r m"
    and rest: "\<forall>m \<in> set ms. decided sz tracks winners r m" by simp_all
  from dm obtain a b win where
    res: "resolveMatchParticipants sz tracks winners (int r) (int m) = Some (a, b)"
    and w: "winners (matchKey (int r) (int m)) = Some win" "win \<noteq> []"
    and l: "loserOf sz tracks winners r m = (if win = a then b else a)"
    by (rule decided_cases)
  let ?lose = "loserOf sz tracks winners r m"
  show ?case
  proof (cases "int r = int rounds - 1")
    case True
    with res w l have "rankMatches sz tracks winners rounds r (m # ms) (lbr, ru)
        = rankMatches sz tracks winners rounds r ms (lbr, Some ?lose)"
      by (simp add: Let_def)
    also have "\<dots> = Some (lbr, if ms = [] then Some ?lose
                                  else Some (loserOf sz tracks winners r (last ms)))"
      using Cons.IH [OF rest Cons.prems(2), of "Some ?lose"] True by simp
    finally show ?thesis using True by simp
  next
    case False
    let ?lbr = "lbr[r := lbr ! r @ [?lose]]"
    from False res w l have "rankMatches sz tracks winners rounds r (m # ms) (lbr, ru)
        = rankMatches sz tracks winners rounds r ms (?lbr, ru)"
      by (simp add: Let_def)
    also have "\<dots> = Some (?lbr[r := ?lbr ! r @ map (loserOf sz tracks winners r) ms], ru)"
      using Cons.IH [OF rest, of ?lbr ru] Cons.prems(2) False by simp
    also have "?lbr[r := ?lbr ! r @ map (loserOf sz tracks winners r) ms]
        = lbr[r := lbr ! r @ map (loserOf sz tracks winners r) (m # ms)]"
      using Cons.prems(2) by simp
    finally show ?thesis using False by simp
  qed
qed

lemma rankRounds_decided:
  assumes "\<forall>r \<in> set rs. r < rounds \<and> (\<forall>m \<in> set (matchIndices sz r). decided sz tracks winners r m)"
    and "distinct rs" and "length lbr = rounds"
  shows "\<exists>lbr' ru'. rankRounds sz tracks winners rounds rs (lbr, ru) = Some (lbr', ru')
     \<and> length lbr' = rounds
     \<and> (\<forall>q < rounds. lbr' ! q =
           (if q \<in> set rs \<and> Suc q \<noteq> rounds
            then lbr ! q @ map (loserOf sz tracks winners q) (matchIndices sz q) else lbr ! q))
     \<and> ru' = (if rounds - 1 \<in> set rs \<and> matchIndices sz (rounds - 1) \<noteq> []
              then Some (loserOf sz tracks winners (rounds - 1) (last (matchIndices sz (rounds - 1))))
              else ru)"
  using assms
proof (induction rs arbitrary: lbr ru)
  case Nil
  then show ?case by simp
next
  case (Cons r rs)
  let ?L = "\<lambda>q. map (loserOf sz tracks winners q) (matchIndices sz q)"
  from Cons.prems have rr: "r < rounds" and rl: "r < length lbr"
    and dr: "\<forall>m \<in> set (matchIndices sz r). decided sz tracks winners r m"
    and nin: "r \<notin> set rs" and drs: "distinct rs"
    and rest: "\<forall>r \<in> set rs. r < rounds \<and> (\<forall>m \<in> set (matchIndices sz r). decided sz tracks winners r m)"
    by simp_all
  have fin: "int r = int rounds - 1 \<longleftrightarrow> Suc r = rounds" by auto
  let ?lbr1 = "if Suc r = rounds then lbr else lbr[r := lbr ! r @ ?L r]"
  let ?ru1 = "if Suc r = rounds \<and> matchIndices sz r \<noteq> []
              then Some (loserOf sz tracks winners r (last (matchIndices sz r))) else ru"
  have step: "rankMatches sz tracks winners rounds r (matchIndices sz r) (lbr, ru) = Some (?lbr1, ?ru1)"
    using rankMatches_decided [OF dr rl, of rounds ru] by (simp add: fin)
  have len1: "length ?lbr1 = rounds" using Cons.prems(3) by simp
  from Cons.IH [OF rest drs len1, of ?ru1] obtain lbr' ru' where
    run: "rankRounds sz tracks winners rounds rs (?lbr1, ?ru1) = Some (lbr', ru')"
    and len': "length lbr' = rounds"
    and nth': "\<forall>q < rounds. lbr' ! q =
           (if q \<in> set rs \<and> Suc q \<noteq> rounds then ?lbr1 ! q @ ?L q else ?lbr1 ! q)"
    and ru': "ru' = (if rounds - 1 \<in> set rs \<and> matchIndices sz (rounds - 1) \<noteq> []
              then Some (loserOf sz tracks winners (rounds - 1) (last (matchIndices sz (rounds - 1))))
              else ?ru1)"
    by blast
  have 1: "rankRounds sz tracks winners rounds (r # rs) (lbr, ru) = Some (lbr', ru')"
    using step run by simp
  have 2: "\<forall>q < rounds. lbr' ! q =
           (if q \<in> set (r # rs) \<and> Suc q \<noteq> rounds then lbr ! q @ ?L q else lbr ! q)"
  proof (intro allI impI)
    fix q assume q: "q < rounds"
    show "lbr' ! q = (if q \<in> set (r # rs) \<and> Suc q \<noteq> rounds then lbr ! q @ ?L q else lbr ! q)"
    proof (cases "q = r")
      case True
      with nin q nth' rl show ?thesis by simp
    next
      case False
      with q nth' show ?thesis by simp
    qed
  qed
  have 3: "ru' = (if rounds - 1 \<in> set (r # rs) \<and> matchIndices sz (rounds - 1) \<noteq> []
              then Some (loserOf sz tracks winners (rounds - 1) (last (matchIndices sz (rounds - 1))))
              else ru)"
  proof (cases "Suc r = rounds")
    case True
    then have "rounds - 1 = r" by simp
    with nin ru' True show ?thesis by simp
  next
    case False
    then have "rounds - 1 \<noteq> r" using rr by simp
    with ru' False show ?thesis by simp
  qed
  from 1 len' 2 3 show ?case by blast
qed

lemma computeRanking_decided:
  assumes sz: "sz = 2 ^ k" and k: "1 \<le> k" and fd: "fullyDecided k tracks winners"
  shows "computeRanking sz tracks winners = Inr (Some (specRanking k tracks winners))"
proof -
  have idx: "\<And>r. r < k \<Longrightarrow> matchIndices sz r = [0 ..< 2 ^ (k - r - 1)]"
    by (simp add: sz matchIndices_pow2)
  have dec: "\<And>r m. r < k \<Longrightarrow> m < 2 ^ (k - r - 1) \<Longrightarrow> decided sz tracks winners r m"
    using fd by (simp add: fullyDecided_def sz)
  have k1: "int (k - 1) = int k - 1" using k by simp
  from k have "decided sz tracks winners (k - 1) 0" by (intro dec) simp_all
  then obtain a b win where
    res: "resolveMatchParticipants sz tracks winners (int (k - 1)) (int 0) = Some (a, b)"
    and w: "winners (matchKey (int (k - 1)) (int 0)) = Some win" "win \<noteq> []"
      "winnerOf winners (k - 1) 0 = win"
    and l: "loserOf sz tracks winners (k - 1) 0 = (if win = a then b else a)"
    by (rule decided_cases)
  have bw: "bracketWinner sz winners = Inr (Some (winnerOf winners (k - 1) 0))"
    using w k1 by (simp add: bracketWinner_def sz totalRounds_pow2 truthy_def)
  have lne: "loserOf sz tracks winners (k - 1) 0 \<noteq> []"
    using resolve_Some_nonempty [OF res] l by simp
  have all: "\<forall>r \<in> set [0 ..< k]. r < k \<and> (\<forall>m \<in> set (matchIndices sz r). decided sz tracks winners r m)"
    using idx dec by simp
  from rankRounds_decided [OF all, of "replicate k []" None] obtain lbr' ru' where
    run: "rankRounds sz tracks winners k [0 ..< k] (replicate k [], None) = Some (lbr', ru')"
    and nth': "\<forall>q < k. lbr' ! q =
           (if q \<in> set [0 ..< k] \<and> Suc q \<noteq> k
            then replicate k [] ! q @ map (loserOf sz tracks winners q) (matchIndices sz q)
            else replicate k [] ! q)"
    and ru': "ru' = (if k - 1 \<in> set [0 ..< k] \<and> matchIndices sz (k - 1) \<noteq> []
              then Some (loserOf sz tracks winners (k - 1) (last (matchIndices sz (k - 1))))
              else None)"
    by auto
  have "matchIndices sz (k - 1) = [0]" using idx [of "k - 1"] k by simp
  with ru' k have ru: "ru' = Some (loserOf sz tracks winners (k - 1) 0)" by simp
  have meq: "map (\<lambda>r. lbr' ! r) (rev [0 ..< k - 1]) = map (losersOfRound k tracks winners) (rev [0 ..< k - 1])"
  proof (rule map_cong [OF refl])
    fix q assume "q \<in> set (rev [0 ..< k - 1])"
    then have q: "q < k" "Suc q \<noteq> k" by auto
    with nth' have "lbr' ! q = map (loserOf sz tracks winners q) (matchIndices sz q)" by simp
    with idx [OF q(1)] show "lbr' ! q = losersOfRound k tracks winners q"
      by (simp add: losersOfRound_def sz)
  qed
  have ceq: "concat (map (\<lambda>r. lbr' ! r) (rev [0 ..< k - 1]))
      = concat (map (losersOfRound k tracks winners) (rev [0 ..< k - 1]))"
    by (simp only: meq)
  have "computeRanking sz tracks winners
      = Inr (Some ([winnerOf winners (k - 1) 0, loserOf sz tracks winners (k - 1) 0]
           @ concat (map (\<lambda>r. lbr' ! r) (rev [0 ..< k - 1]))))"
    using run ru bw lne
    by (simp add: computeRanking_def sz totalRounds_pow2 truthy_def)
  then show ?thesis
    by (simp only: ceq specRanking_def sz)
qed


lemmas rank_eval_simps = computeRanking_def bracketWinner_def totalRounds_def isPowerOfTwo_def
  mathLog2.simps matchIndices_def matchCount_def matchKey_def numberToString_def
  natToString.simps digitChar_def resolveMatchParticipants_def bothTruthy_def arrayGet_def
  truthy_def upt_rec Let_def

lemma scenarioA:
  "computeRanking 8 [''a'', ''b'', ''c'', ''d'', ''e'', ''f'', ''g'', ''h'']
      [''r0m0'' \<mapsto> ''a'', ''r0m1'' \<mapsto> ''d'', ''r0m2'' \<mapsto> ''e'', ''r0m3'' \<mapsto> ''h'',
       ''r1m0'' \<mapsto> ''a'', ''r1m1'' \<mapsto> ''h'', ''r2m0'' \<mapsto> ''a'']
    = Inr (Some [''a'', ''h'', ''d'', ''e'', ''b'', ''c'', ''f'', ''g''])"
  by (simp add: rank_eval_simps)

text \<open>
  Claim C1. For every fully decided bracket of \<open>k \<ge> 1\<close> rounds (size \<open>2^k\<close>),
  \<open>computeRanking\<close> returns the champion, then the runner-up, then for each round from
  \<open>k - 2\<close> down to \<open>0\<close> the losers of that round in ascending match order. In particular
  for size 8, tracks \<open>a .. h\<close>, and the winners \<open>a, d, e, h\<close> of round 0, \<open>a, h\<close> of round
  1 and \<open>a\<close> of the final, it returns \<open>[a, h, d, e, b, c, f, g]\<close>.
\<close>

theorem computeRanking_order:
  assumes "sz = 2 ^ k" and "1 \<le> k" and "fullyDecided k tracks winners"
  shows "computeRanking sz tracks winners = Inr (Some (specRanking k tracks winners))
     \<and> computeRanking 8 [''a'', ''b'', ''c'', ''d'', ''e'', ''f'', ''g'', ''h'']
          [''r0m0'' \<mapsto> ''a'', ''r0m1'' \<mapsto> ''d'', ''r0m2'' \<mapsto> ''e'', ''r0m3'' \<mapsto> ''h'',
           ''r1m0'' \<mapsto> ''a'', ''r1m1'' \<mapsto> ''h'', ''r2m0'' \<mapsto> ''a'']
        = Inr (Some [''a'', ''h'', ''d'', ''e'', ''b'', ''c'', ''f'', ''g''])"
  using computeRanking_decided [OF assms] scenarioA by (rule conjI)

theorem computeRanking_order_witness:
  "fullyDecided 3 [''a'', ''b'', ''c'', ''d'', ''e'', ''f'', ''g'', ''h'']
      [''r0m0'' \<mapsto> ''a'', ''r0m1'' \<mapsto> ''d'', ''r0m2'' \<mapsto> ''e'', ''r0m3'' \<mapsto> ''h'',
       ''r1m0'' \<mapsto> ''a'', ''r1m1'' \<mapsto> ''h'', ''r2m0'' \<mapsto> ''a'']
   \<and> specRanking 3 [''a'', ''b'', ''c'', ''d'', ''e'', ''f'', ''g'', ''h'']
      [''r0m0'' \<mapsto> ''a'', ''r0m1'' \<mapsto> ''d'', ''r0m2'' \<mapsto> ''e'', ''r0m3'' \<mapsto> ''h'',
       ''r1m0'' \<mapsto> ''a'', ''r1m1'' \<mapsto> ''h'', ''r2m0'' \<mapsto> ''a'']
     = [''a'', ''h'', ''d'', ''e'', ''b'', ''c'', ''f'', ''g'']"
proof -
  let ?T = "[''a'', ''b'', ''c'', ''d'', ''e'', ''f'', ''g'', ''h'']"
  let ?W = "[''r0m0'' \<mapsto> ''a'', ''r0m1'' \<mapsto> ''d'', ''r0m2'' \<mapsto> ''e'', ''r0m3'' \<mapsto> ''h'',
       ''r1m0'' \<mapsto> ''a'', ''r1m1'' \<mapsto> ''h'', ''r2m0'' \<mapsto> ''a'']"
  have sz: "(8::nat) = 2 ^ 3" and k: "(1::nat) \<le> 3" by simp_all
  have fd: "fullyDecided 3 ?T ?W"
    by code_simp
  note inst = computeRanking_order [OF sz k fd]
  have a: "computeRanking 8 ?T ?W = Inr (Some (specRanking 3 ?T ?W))"
    by (rule conjunct1 [OF inst])
  have b: "computeRanking 8 ?T ?W = Inr (Some [''a'', ''h'', ''d'', ''e'', ''b'', ''c'', ''f'', ''g''])"
    by (rule conjunct2 [OF inst])
  from a b have "specRanking 3 ?T ?W = [''a'', ''h'', ''d'', ''e'', ''b'', ''c'', ''f'', ''g'']"
    by (simp only: sum.inject option.inject)
  with fd show ?thesis by (rule conjI)
qed

text \<open>
  Claim C9, as the code has it. When the final match's winner is recorded but some
  match of the bracket lacks resolvable participants or a recorded winner,
  \<open>computeRanking\<close> returns \<open>null\<close>, never a partial ranking; this is the very result
  it returns when the champion is missing (as with an empty winners map). The code has
  no separate error for the inconsistent state.
\<close>

theorem computeRanking_inconsistent_null:
  assumes sz: "sz = 2 ^ k" and fin: "truthy (winners (matchKey (int k - 1) 0))"
    and r: "r < k" and m: "m < 2 ^ (k - r - 1)" and und: "\<not> decided sz tracks winners r m"
  shows "computeRanking sz tracks winners = Inr None
       \<and> computeRanking sz tracks Map.empty = Inr None"
proof
  have "r \<in> set [0 ..< k]" using r by simp
  moreover have "m \<in> set (matchIndices sz r)" using r m by (simp add: sz matchIndices_pow2)
  ultimately have "rankRounds sz tracks winners k [0 ..< k] (replicate k [], None) = None"
    using und by (rule rankRounds_undecided)
  then show "computeRanking sz tracks winners = Inr None"
    by (simp add: computeRanking_def bracketWinner_def sz totalRounds_pow2 Let_def
          split: option.splits)
next
  show "computeRanking sz tracks Map.empty = Inr None"
    by (simp add: computeRanking_def bracketWinner_def sz totalRounds_pow2 truthy_def)
qed

theorem computeRanking_inconsistent_null_witness:
  "truthy ([''r1m0'' \<mapsto> ''a''] (matchKey (int 2 - 1) 0))
   \<and> \<not> decided 4 [''a'', ''b'', ''c'', ''d''] [''r1m0'' \<mapsto> ''a''] 0 1
   \<and> computeRanking 4 [''a'', ''b'', ''c'', ''d''] [''r1m0'' \<mapsto> ''a''] = Inr None"
proof -
  let ?T = "[''a'', ''b'', ''c'', ''d'']"
  let ?W = "[''r1m0'' \<mapsto> ''a'']"
  have sz: "(4::nat) = 2 ^ 2" by simp
  have fin: "truthy (?W (matchKey (int 2 - 1) 0))"
    by (simp add: rank_eval_simps)
  have r: "(0::nat) < 2" and m: "(1::nat) < 2 ^ (2 - 0 - 1)" by simp_all
  have und: "\<not> decided 4 ?T ?W 0 1"
    by (simp add: decided_def recorded_def rank_eval_simps)
  from computeRanking_inconsistent_null [OF sz fin r m und] fin und
  show ?thesis by simp
qed

text \<open>
  Claim C9 as stated asks for an error distinct from "not yet available". With only the
  final of a bracket of four recorded, the result is the same \<open>null\<close> as with no winner
  recorded at all.
\<close>

theorem computeRanking_inconsistent_counterexample:
  "computeRanking 4 [''a'', ''b'', ''c'', ''d''] [''r1m0'' \<mapsto> ''a''] = Inr None
   \<and> computeRanking 4 [''a'', ''b'', ''c'', ''d''] Map.empty = Inr None"
  by (simp add: rank_eval_simps)

section \<open>The ranking is a permutation of the tracks\<close>

lemma pairs_concat:
  "length xs = 2 * n \<Longrightarrow> concat (map (\<lambda>m. [xs ! (2 * m), xs ! (2 * m + 1)]) [0 ..< n]) = xs"
proof (induction n arbitrary: xs)
  case 0
  then show ?case by simp
next
  case (Suc n)
  let ?ys = "take (2 * n) xs"
  have len: "length ?ys = 2 * n" using Suc.prems by simp
  have meq: "map (\<lambda>m. [xs ! (2 * m), xs ! (2 * m + 1)]) [0 ..< n]
      = map (\<lambda>m. [?ys ! (2 * m), ?ys ! (2 * m + 1)]) [0 ..< n]"
    by (rule map_cong [OF refl]) simp
  have "concat (map (\<lambda>m. [xs ! (2 * m), xs ! (2 * m + 1)]) [0 ..< n])
      = concat (map (\<lambda>m. [?ys ! (2 * m), ?ys ! (2 * m + 1)]) [0 ..< n])"
    by (simp only: meq)
  also have "\<dots> = ?ys" by (rule Suc.IH [OF len])
  finally have "concat (map (\<lambda>m. [xs ! (2 * m), xs ! (2 * m + 1)]) [0 ..< n]) = ?ys" .
  moreover have "xs = ?ys @ [xs ! (2 * n), xs ! (2 * n + 1)]"
  proof -
    have "xs = take (Suc (Suc (2 * n))) xs" using Suc.prems by simp
    also have "\<dots> = take (Suc (2 * n)) xs @ [xs ! Suc (2 * n)]"
      using Suc.prems by (intro take_Suc_conv_app_nth) simp
    also have "take (Suc (2 * n)) xs = ?ys @ [xs ! (2 * n)]"
      using Suc.prems by (intro take_Suc_conv_app_nth) simp
    finally show ?thesis by simp
  qed
  ultimately show ?case by simp
qed

lemma mset_pairs:
  "\<forall>m \<in> set ms. {#w m, l m#} = {#a m, b m#} \<Longrightarrow>
   mset (map w ms) + mset (map l ms) = mset (concat (map (\<lambda>m. [a m, b m]) ms))"
proof (induction ms)
  case Nil
  show ?case by simp
next
  case (Cons m ms)
  then have "mset (map w ms) + mset (map l ms) = mset (concat (map (\<lambda>m. [a m, b m]) ms))"
    and "{#w m, l m#} = {#a m, b m#}" by simp_all
  then show ?case by (simp add: ac_simps)
qed

lemma mset_concat_rev: "mset (concat (rev xss)) = mset (concat xss)"
  by (induction xss) simp_all

lemma resolve_entrants:
  assumes len: "length tracks = 2 ^ k" and r: "r < k" and m: "m < 2 ^ (k - r - 1)"
    and res: "resolveMatchParticipants (2 ^ k) tracks winners (int r) (int m) = Some (a, b)"
  shows "a = entrants k tracks winners r ! (2 * m) \<and> b = entrants k tracks winners r ! (2 * m + 1)"
proof (cases "r = 0")
  case True
  with res len show ?thesis
    by (auto simp: resolveMatchParticipants_def bothTruthy_Some arrayGet_def entrants_def
          nat_mult_distrib nat_add_distrib mult.commute split: if_splits)
next
  case False
  have e: "k - r = Suc (k - r - 1)" using r by simp
  have "(2::nat) ^ (k - r) = 2 * 2 ^ (k - r - 1)"
    using arg_cong [OF e, of "\<lambda>x. (2::nat) ^ x"] by simp
  with m have m2: "2 * m < 2 ^ (k - r)" "2 * m + 1 < 2 ^ (k - r)" by simp_all
  have i1: "int (r - 1) = int r - 1" using False by simp
  have i2: "int (2 * m) = int m * 2" by simp
  have i3: "int (2 * m + 1) = int m * 2 + 1" by simp
  from res False len have wa: "winners (matchKey (int r - 1) (int m * 2)) = Some a"
    and wb: "winners (matchKey (int r - 1) (int m * 2 + 1)) = Some b"
    by (simp_all add: resolveMatchParticipants_def bothTruthy_Some Let_def)
  have a: "winnerOf winners (r - 1) (2 * m) = a"
    by (simp only: winnerOf_def i1 i2 wa option.simps)
  have b: "winnerOf winners (r - 1) (2 * m + 1) = b"
    by (simp only: winnerOf_def i1 i3 wb option.simps)
  have "entrants k tracks winners r ! (2 * m) = winnerOf winners (r - 1) (2 * m)"
    using m2 False by (simp add: entrants_def)
  moreover have "entrants k tracks winners r ! (2 * m + 1) = winnerOf winners (r - 1) (2 * m + 1)"
    using m2 False by (simp add: entrants_def)
  ultimately show ?thesis using a b by simp
qed

lemma winnersAreParticipantsD:
  assumes wp: "winnersAreParticipants k tracks winners" and r: "r < k" and m: "m < 2 ^ (k - r - 1)"
  shows "\<exists>a b. resolveMatchParticipants (2 ^ k) tracks winners (int r) (int m) = Some (a, b)
           \<and> (winnerOf winners r m = a \<or> winnerOf winners r m = b)"
proof -
  have "r \<in> set [0 ..< k]" "m \<in> set [0 ..< 2 ^ (k - r - 1)]" using r m by simp_all
  with wp have c: "case resolveMatchParticipants (2 ^ k) tracks winners (int r) (int m) of
           Some (a, b) \<Rightarrow> winnerOf winners r m = a \<or> winnerOf winners r m = b
         | None \<Rightarrow> False"
    unfolding winnersAreParticipants_def by blast
  show ?thesis
  proof (cases "resolveMatchParticipants (2 ^ k) tracks winners (int r) (int m)")
    case None
    with c show ?thesis by simp
  next
    case (Some p)
    with c show ?thesis by (cases p) simp
  qed
qed

lemma round_mset:
  assumes len: "length tracks = 2 ^ k" and r: "r < k"
    and fd: "fullyDecided k tracks winners" and wp: "winnersAreParticipants k tracks winners"
  shows "mset (entrants k tracks winners r)
       = mset (entrants k tracks winners (Suc r)) + mset (losersOfRound k tracks winners r)"
proof -
  let ?n = "2 ^ (k - r - 1) :: nat"
  let ?E = "entrants k tracks winners r"
  have e: "k - r = Suc (k - r - 1)" using r by simp
  have pw: "(2::nat) ^ (k - r) = 2 * ?n"
    using arg_cong [OF e, of "\<lambda>x. (2::nat) ^ x"] by simp
  have lenE: "length ?E = 2 * ?n"
    using len pw by (cases "r = 0") (simp_all add: entrants_def)
  have each: "\<forall>m \<in> set [0 ..< ?n].
      {#winnerOf winners r m, loserOf (2 ^ k) tracks winners r m#} = {#?E ! (2 * m), ?E ! (2 * m + 1)#}"
  proof
    fix m assume "m \<in> set [0 ..< ?n]"
    then have m: "m < ?n" by simp
    from winnersAreParticipantsD [OF wp r m] obtain a b where
      res: "resolveMatchParticipants (2 ^ k) tracks winners (int r) (int m) = Some (a, b)"
      and w: "winnerOf winners r m = a \<or> winnerOf winners r m = b"
      by blast
    from resolve_entrants [OF len r m res]
    have ab: "a = ?E ! (2 * m)" "b = ?E ! (2 * m + 1)" by simp_all
    from res have l: "loserOf (2 ^ k) tracks winners r m = (if winnerOf winners r m = a then b else a)"
      by (simp add: loserOf_def)
    from w l have "{#winnerOf winners r m, loserOf (2 ^ k) tracks winners r m#} = {#a, b#}"
      by auto
    with ab show "{#winnerOf winners r m, loserOf (2 ^ k) tracks winners r m#}
        = {#?E ! (2 * m), ?E ! (2 * m + 1)#}" by simp
  qed
  have "mset (map (winnerOf winners r) [0 ..< ?n]) + mset (map (loserOf (2 ^ k) tracks winners r) [0 ..< ?n])
      = mset (concat (map (\<lambda>m. [?E ! (2 * m), ?E ! (2 * m + 1)]) [0 ..< ?n]))"
    by (rule mset_pairs [OF each])
  also have "\<dots> = mset ?E" by (simp only: pairs_concat [OF lenE])
  finally have "mset ?E = mset (map (winnerOf winners r) [0 ..< ?n]) + mset (losersOfRound k tracks winners r)"
    by (simp add: losersOfRound_def)
  moreover have "entrants k tracks winners (Suc r) = map (winnerOf winners r) [0 ..< ?n]"
    by (simp add: entrants_def)
  ultimately show ?thesis by simp
qed

lemma rounds_mset:
  assumes len: "length tracks = 2 ^ k"
    and fd: "fullyDecided k tracks winners" and wp: "winnersAreParticipants k tracks winners"
  shows "j \<le> k \<Longrightarrow> mset tracks
       = mset (entrants k tracks winners j) + mset (concat (map (losersOfRound k tracks winners) [0 ..< j]))"
proof (induction j)
  case 0
  show ?case by (simp add: entrants_def)
next
  case (Suc j)
  then have j: "j < k" by simp
  from Suc have "mset tracks = mset (entrants k tracks winners j)
      + mset (concat (map (losersOfRound k tracks winners) [0 ..< j]))" by simp
  also have "mset (entrants k tracks winners j)
      = mset (entrants k tracks winners (Suc j)) + mset (losersOfRound k tracks winners j)"
    by (rule round_mset [OF len j fd wp])
  finally show ?case by simp
qed

lemma specRanking_mset:
  assumes len: "length tracks = 2 ^ k" and k: "1 \<le> k"
    and fd: "fullyDecided k tracks winners" and wp: "winnersAreParticipants k tracks winners"
  shows "mset (specRanking k tracks winners) = mset tracks"
proof -
  let ?L = "losersOfRound k tracks winners"
  have E: "entrants k tracks winners k = [winnerOf winners (k - 1) 0]"
    using k by (simp add: entrants_def)
  have Lk: "?L (k - 1) = [loserOf (2 ^ k) tracks winners (k - 1) 0]"
    using k by (simp add: losersOfRound_def)
  have "k = Suc (k - 1)" using k by simp
  then have "[0 ..< k] = [0 ..< Suc (k - 1)]" by simp
  also have "\<dots> = [0 ..< k - 1] @ [k - 1]" by (rule upt_Suc_append) simp
  finally have "[0 ..< k] = [0 ..< k - 1] @ [k - 1]" .
  then have "concat (map ?L [0 ..< k]) = concat (map ?L [0 ..< k - 1]) @ ?L (k - 1)"
    by simp
  then have all: "mset (concat (map ?L [0 ..< k]))
      = mset (concat (map ?L [0 ..< k - 1])) + {#loserOf (2 ^ k) tracks winners (k - 1) 0#}"
    unfolding Lk by simp
  have "mset (concat (map ?L (rev [0 ..< k - 1]))) = mset (concat (map ?L [0 ..< k - 1]))"
    by (simp only: rev_map [symmetric] mset_concat_rev)
  then have "mset (specRanking k tracks winners)
      = {#winnerOf winners (k - 1) 0#} + mset (concat (map ?L [0 ..< k]))"
    by (simp add: specRanking_def all)
  also have "\<dots> = mset tracks"
    using rounds_mset [OF len fd wp, of k] E by simp
  finally show ?thesis .
qed

text \<open>
  Claim C2. For a bracket of size \<open>N = 2^k \<ge> 4\<close> whose track list holds \<open>N\<close> distinct
  identifiers and whose winners map is fully decided, every recorded winner being one of
  the two resolved participants of its match, \<open>computeRanking\<close> returns a list (not
  \<open>null\<close>) of exactly \<open>N\<close> distinct identifiers, the tracks themselves; its element 0 is
  the final match's winner and its element 1 is the final match's loser.
\<close>

theorem computeRanking_roundtrip:
  assumes sz: "sz = 2 ^ k" and four: "4 \<le> sz" and len: "length tracks = sz"
    and dist: "distinct tracks"
    and fd: "fullyDecided k tracks winners" and wp: "winnersAreParticipants k tracks winners"
  shows "\<exists>ranking. computeRanking sz tracks winners = Inr (Some ranking)
     \<and> length ranking = sz \<and> distinct ranking \<and> set ranking = set tracks
     \<and> ranking ! 0 = winnerOf winners (k - 1) 0
     \<and> ranking ! 1 = loserOf sz tracks winners (k - 1) 0"
proof -
  have k: "1 \<le> k"
  proof (rule ccontr)
    assume "\<not> 1 \<le> k"
    then have "k = 0" by simp
    with sz four show False by simp
  qed
  let ?rk = "specRanking k tracks winners"
  have c: "computeRanking sz tracks winners = Inr (Some ?rk)"
    by (rule computeRanking_decided [OF sz k fd])
  have ms: "mset ?rk = mset tracks"
    using len sz by (intro specRanking_mset k fd wp) simp
  have "length ?rk = sz" using mset_eq_length [OF ms] len by simp
  moreover have "distinct ?rk" using mset_eq_imp_distinct_iff [OF ms] dist by simp
  moreover have "set ?rk = set tracks" using mset_eq_setD [OF ms] .
  moreover have "?rk ! 0 = winnerOf winners (k - 1) 0" by (simp add: specRanking_def)
  moreover have "?rk ! 1 = loserOf sz tracks winners (k - 1) 0" by (simp add: specRanking_def sz)
  ultimately show ?thesis using c by blast
qed

theorem computeRanking_roundtrip_witness:
  "\<exists>ranking. computeRanking 4 [''a'', ''b'', ''c'', ''d'']
        [''r0m0'' \<mapsto> ''b'', ''r0m1'' \<mapsto> ''c'', ''r1m0'' \<mapsto> ''c''] = Inr (Some ranking)
     \<and> length ranking = 4 \<and> distinct ranking \<and> set ranking = set [''a'', ''b'', ''c'', ''d'']
     \<and> ranking ! 0 = ''c'' \<and> ranking ! 1 = ''b''"
proof -
  let ?T = "[''a'', ''b'', ''c'', ''d'']"
  let ?W = "[''r0m0'' \<mapsto> ''b'', ''r0m1'' \<mapsto> ''c'', ''r1m0'' \<mapsto> ''c'']"
  have sz: "(4::nat) = 2 ^ 2" and four: "(4::nat) \<le> 4" and len: "length ?T = 4" 
    and dist: "distinct ?T" by simp_all
  have fd: "fullyDecided 2 ?T ?W" by code_simp
  have wp: "winnersAreParticipants 2 ?T ?W" by code_simp
  have w: "winnerOf ?W (2 - 1) 0 = ''c''" by code_simp
  have l: "loserOf 4 ?T ?W (2 - 1) 0 = ''b''" by code_simp
  from computeRanking_roundtrip [OF sz four len dist fd wp] w l
  show ?thesis by simp
qed

section \<open>Votes\<close>







section \<open>Sizing\<close>

lemma mathLog2_le: "0 < n \<Longrightarrow> 2 ^ mathLog2 n \<le> n"
proof (induction n rule: mathLog2.induct)
  case (1 n)
  show ?case
  proof (cases "n < 2")
    case True
    with 1(2) show ?thesis by (subst mathLog2.simps) simp
  next
    case False
    then have "0 < n div 2" by simp
    with 1(1) False have "2 ^ mathLog2 (n div 2) \<le> n div 2" by simp
    then have "2 * 2 ^ mathLog2 (n div 2) \<le> n" by simp
    with False show ?thesis by (subst mathLog2.simps) simp
  qed
qed

lemma pow2Floor_le: "pow2Floor n \<le> n"
  by (simp add: pow2Floor_def mathLog2_le)

lemma pickUniqueLoop_length:
  "length (fst (pickUniqueLoop ts want seen out)) =
     (if want \<le> length out then length out
      else min want (length out + card (trkId ` set ts - seen)))"
proof (induction ts arbitrary: seen out)
  case Nil
  show ?case by simp
next
  case (Cons rt rest)
  show ?case
  proof (cases "want \<le> length out")
    case True
    then show ?thesis by simp
  next
    case w: False
    show ?thesis
    proof (cases "trkId rt \<in> seen")
      case True
      then have "trkId ` set (rt # rest) - seen = trkId ` set rest - seen" by auto
      with w True Cons.IH [of seen out] show ?thesis by simp
    next
      case False
      have "trkId ` set (rt # rest) - seen
          = insert (trkId rt) (trkId ` set rest - insert (trkId rt) seen)"
        using False by auto
      moreover have "trkId rt \<notin> trkId ` set rest - insert (trkId rt) seen" by simp
      ultimately have c: "card (trkId ` set (rt # rest) - seen)
          = Suc (card (trkId ` set rest - insert (trkId rt) seen))"
        by (simp del: set_simps)
      from w False have "pickUniqueLoop (rt # rest) want seen out
          = pickUniqueLoop rest want (insert (trkId rt) seen) (out @ [rt])" by simp
      with Cons.IH [of "insert (trkId rt) seen" "out @ [rt]"] c w show ?thesis
        by (simp del: set_simps) 
    qed
  qed
qed

lemma pickUniqueLoop_seen:
  "snd (pickUniqueLoop ts want seen out) \<subseteq> seen \<union> trkId ` set ts"
proof (induction ts arbitrary: seen out)
  case Nil
  show ?case by simp
next
  case (Cons rt rest)
  from Cons.IH [of seen out] Cons.IH [of "insert (trkId rt) seen" "out @ [rt]"]
  show ?case by auto
qed

lemma pickUnique_length:
  "length (fst (pickUnique ts want seen)) = min want (card (trkId ` set ts - seen))"
  by (simp add: pickUnique_def pickUniqueLoop_length)

lemma pickUnique_seen: "snd (pickUnique ts want seen) \<subseteq> seen \<union> trkId ` set ts"
  by (simp add: pickUnique_def pickUniqueLoop_seen)

lemma sizingPass_lengths:
  "length (hostPicked (sizingPass h c p)) = min p (card (trkId ` set h))"
  "\<exists>seen. seen \<subseteq> trkId ` set h
     \<and> length (challengerPicked (sizingPass h c p)) = min p (card (trkId ` set c - seen))"
  "effective (sizingPass h c p)
     = min (length (hostPicked (sizingPass h c p))) (length (challengerPicked (sizingPass h c p)))"
  "effectivePow2 (sizingPass h c p) = pow2Floor (effective (sizingPass h c p))"
proof -
  obtain hp s1 where 1: "pickUnique h p {} = (hp, s1)" by (cases "pickUnique h p {}")
  obtain cp s2 where 2: "pickUnique c p s1 = (cp, s2)" by (cases "pickUnique c p s1")
  have sp: "sizingPass h c p = \<lparr>hostPicked = hp, challengerPicked = cp,
      effective = min (length hp) (length cp), effectivePow2 = pow2Floor (min (length hp) (length cp))\<rparr>"
    by (simp add: sizingPass_def 1 2 Let_def)
  from pickUnique_length [of h p "{}"] 1 have "length hp = min p (card (trkId ` set h))" by simp
  then show "length (hostPicked (sizingPass h c p)) = min p (card (trkId ` set h))"
    by (simp add: sp)
  from pickUnique_seen [of h p "{}"] 1 have s1: "s1 \<subseteq> trkId ` set h" by simp
  from pickUnique_length [of c p s1] 2 have "length cp = min p (card (trkId ` set c - s1))" by simp
  with s1 show "\<exists>seen. seen \<subseteq> trkId ` set h
     \<and> length (challengerPicked (sizingPass h c p)) = min p (card (trkId ` set c - seen))"
    by (auto simp: sp)
  show "effective (sizingPass h c p)
     = min (length (hostPicked (sizingPass h c p))) (length (challengerPicked (sizingPass h c p)))"
    by (simp add: sp)
  show "effectivePow2 (sizingPass h c p) = pow2Floor (effective (sizingPass h c p))"
    by (simp add: sp)
qed

lemma effectivePow2_le: "effectivePow2 (sizingPass h c p) \<le> p"
proof -
  have "effectivePow2 (sizingPass h c p) \<le> effective (sizingPass h c p)"
    by (simp add: sizingPass_lengths(4) pow2Floor_le)
  also have "\<dots> \<le> length (hostPicked (sizingPass h c p))"
    by (simp add: sizingPass_lengths(3))
  also have "\<dots> \<le> p" by (simp add: sizingPass_lengths(1))
  finally show ?thesis .
qed

lemma sizingLoop_terminates: "\<exists>res. sizingLoop h c p = Some res"
proof (induction p rule: less_induct)
  case (less p)
  let ?e = "effectivePow2 (sizingPass h c p)"
  show ?case
  proof (cases "?e < 4 \<or> ?e = p")
    case True
    then show ?thesis by (subst sizingLoop.simps) auto
  next
    case False
    with effectivePow2_le [of h c p] have "?e < p" by simp
    from less [OF this] obtain res where "sizingLoop h c ?e = Some res" by blast
    with False show ?thesis by (subst sizingLoop.simps) simp
  qed
qed

lemma pow2Floor_9: "pow2Floor 9 = 8"
  by (simp add: pow2Floor_def mathLog2.simps)

lemma pow2Floor_8: "pow2Floor 8 = 8"
  by (simp add: pow2Floor_def mathLog2.simps)

lemma scenarioC:
  assumes h: "card (trkId ` set h) = 30" and c: "card (trkId ` set c) = 9"
    and d: "trkId ` set h \<inter> trkId ` set c = {}"
  shows "effective (sizingPass h c 16) = 9" "effectivePow2 (sizingPass h c 16) = 8"
    "effective (sizingPass h c 8) = 8" "effectivePow2 (sizingPass h c 8) = 8"
    "length (hostPicked (sizingPass h c 8)) = 8" "length (challengerPicked (sizingPass h c 8)) = 8"
proof -
  have cp: "length (challengerPicked (sizingPass h c p)) = min p 9" for p
  proof -
    from sizingPass_lengths(2) [of h c p] obtain seen where s: "seen \<subseteq> trkId ` set h"
      and l: "length (challengerPicked (sizingPass h c p)) = min p (card (trkId ` set c - seen))"
      by blast
    from s d have "trkId ` set c - seen = trkId ` set c" by blast
    with l c show ?thesis by simp
  qed
  have hp: "length (hostPicked (sizingPass h c p)) = min p 30" for p
    by (simp add: sizingPass_lengths(1) h)
  show e16: "effective (sizingPass h c 16) = 9"
    by (simp add: sizingPass_lengths(3) cp hp)
  show "effectivePow2 (sizingPass h c 16) = 8"
    by (simp add: sizingPass_lengths(4) e16 pow2Floor_9)
  show e8: "effective (sizingPass h c 8) = 8"
    by (simp add: sizingPass_lengths(3) cp hp)
  show "effectivePow2 (sizingPass h c 8) = 8"
    by (simp add: sizingPass_lengths(4) e8 pow2Floor_8)
  show "length (hostPicked (sizingPass h c 8)) = 8" by (simp add: hp)
  show "length (challengerPicked (sizingPass h c 8)) = 8" by (simp add: cp)
qed

text \<open>
  Claim C6. The per-side selection loop returns for every pair of candidate lists and
  every starting \<open>perUser\<close>, because a retry continues with a strictly smaller value.
  With a host list of 30 unique tracks, a challenger list of 9 unique tracks, no
  identifier shared, and a configured size of 32: \<open>perUser\<close> starts at 16, the first pass
  has \<open>effective = 9\<close>, rounded down to 8, the second pass accepts with \<open>perUser = 8\<close> and
  eight tracks per side, and the stored bracket size is 16.
\<close>

theorem sizingLoop_converges:
  "(\<exists>res. sizingLoop hostCandidates challengerCandidates perUser = Some res)
   \<and> (effectivePow2 (sizingPass hostCandidates challengerCandidates perUser) \<noteq> perUser \<longrightarrow>
        effectivePow2 (sizingPass hostCandidates challengerCandidates perUser) < perUser)
   \<and> (card (trkId ` set h) = 30 \<and> card (trkId ` set c) = 9
        \<and> trkId ` set h \<inter> trkId ` set c = {} \<longrightarrow>
        effective (sizingPass h c (32 div 2)) = 9
        \<and> effectivePow2 (sizingPass h c (32 div 2)) = 8
        \<and> effectivePow2 (sizingPass h c 8) = 8
        \<and> (\<exists>hs cs. dualSizing 32 h c = Some (Sized 8 hs cs) \<and> length hs = 8 \<and> length cs = 8
              \<and> map_option bracketSize (tournament (materialize db t now hostId challengerId 8 hs cs))
                  = Some 16))"
proof (intro conjI impI)
  show "\<exists>res. sizingLoop hostCandidates challengerCandidates perUser = Some res"
    by (rule sizingLoop_terminates)
next
  assume "effectivePow2 (sizingPass hostCandidates challengerCandidates perUser) \<noteq> perUser"
  with effectivePow2_le [of hostCandidates challengerCandidates perUser]
  show "effectivePow2 (sizingPass hostCandidates challengerCandidates perUser) < perUser"
    by simp
next
  assume a: "card (trkId ` set h) = 30 \<and> card (trkId ` set c) = 9
        \<and> trkId ` set h \<inter> trkId ` set c = {}"
  then have s: "effective (sizingPass h c 16) = 9" "effectivePow2 (sizingPass h c 16) = 8"
    "effective (sizingPass h c 8) = 8" "effectivePow2 (sizingPass h c 8) = 8"
    "length (hostPicked (sizingPass h c 8)) = 8" "length (challengerPicked (sizingPass h c 8)) = 8"
    by (simp_all add: scenarioC)
  from s show "effective (sizingPass h c (32 div 2)) = 9" by simp
  from s show "effectivePow2 (sizingPass h c (32 div 2)) = 8" by simp
  from s show "effectivePow2 (sizingPass h c 8) = 8" by simp
  have "sizingLoop h c 16 = sizingLoop h c 8"
    using s by (subst sizingLoop.simps) simp
  also have "\<dots> = Some (Sized 8 (take 8 (hostPicked (sizingPass h c 8)))
                                (take 8 (challengerPicked (sizingPass h c 8))))"
    using s by (subst sizingLoop.simps) simp
  finally have "dualSizing 32 h c = Some (Sized 8 (take 8 (hostPicked (sizingPass h c 8)))
                                (take 8 (challengerPicked (sizingPass h c 8))))"
    by (simp add: dualSizing_def)
  moreover have "map_option bracketSize (tournament (materialize db t now hostId challengerId 8
       (take 8 (hostPicked (sizingPass h c 8))) (take 8 (challengerPicked (sizingPass h c 8)))))
      = Some 16"
    by (simp add: materialize_def Let_def)
  ultimately show "\<exists>hs cs. dualSizing 32 h c = Some (Sized 8 hs cs) \<and> length hs = 8 \<and> length cs = 8
              \<and> map_option bracketSize (tournament (materialize db t now hostId challengerId 8 hs cs))
                  = Some 16"
    using s by simp
qed

theorem sizingLoop_converges_witness:
  "card (trkId ` set exampleHost) = 30 \<and> card (trkId ` set exampleChallenger) = 9
   \<and> trkId ` set exampleHost \<inter> trkId ` set exampleChallenger = {}
   \<and> effective (sizingPass exampleHost exampleChallenger 16) = 9
   \<and> effectivePow2 (sizingPass exampleHost exampleChallenger 16) = 8
   \<and> effectivePow2 (sizingPass exampleHost exampleChallenger 16) < 16
   \<and> (\<exists>hs cs. dualSizing 32 exampleHost exampleChallenger = Some (Sized 8 hs cs)
         \<and> length hs = 8 \<and> length cs = 8)"
proof -
  have 1: "card (trkId ` set exampleHost) = 30" by code_simp
  have 2: "card (trkId ` set exampleChallenger) = 9" by code_simp
  have 3: "trkId ` set exampleHost \<inter> trkId ` set exampleChallenger = {}" by code_simp
  note inst = sizingLoop_converges [where hostCandidates = exampleHost
      and challengerCandidates = exampleChallenger and perUser = 16
      and h = exampleHost and c = exampleChallenger and db = exampleDb
      and t = exampleTournament and now = 0 and hostId = "''host''" and challengerId = "''guest''"]
  from inst 1 2 3 show ?thesis by auto
qed

section \<open>The seeded shuffle is a permutation\<close>

lemma fraction_range:
  "n < 4294967296 \<Longrightarrow> 0 \<le> (of_nat n :: rat) / 4294967296 \<and> (of_nat n :: rat) / 4294967296 < 1"
  by simp

lemma rand_range: "0 \<le> snd (rand a) \<and> snd (rand a) < 1"
proof -
  have lt: "unat w < 4294967296" for w :: u32
    using unsigned_less [of w, where 'a = nat] by simp
  have "\<exists>w :: u32. snd (rand a) = of_nat (unat w) / 4294967296"
    unfolding rand_def Let_def snd_conv by (rule exI) (rule refl)
  then obtain w :: u32 where w: "snd (rand a) = of_nat (unat w) / 4294967296" ..
  show ?thesis unfolding w by (rule fraction_range [OF lt])
qed

lemma pick_le:
  fixes x :: rat
  assumes "0 \<le> x" and "x < 1"
  shows "nat \<lfloor>x * of_nat (Suc n + 1)\<rfloor> \<le> Suc n"
proof -
  have "0 < (of_nat (Suc n + 1) :: rat)" by (simp only: of_nat_0_less_iff)
  with assms(2) have "x * of_nat (Suc n + 1) < 1 * of_nat (Suc n + 1)"
    by (rule mult_strict_right_mono)
  then have "x * of_nat (Suc n + 1) < of_int (int (Suc n + 1))" by simp
  then have "\<lfloor>x * of_nat (Suc n + 1)\<rfloor> < int (Suc n + 1)"
    by (simp only: floor_less_iff)
  then show ?thesis by simp
qed

lemma swapCells_mset:
  "i < length xs \<Longrightarrow> j < length xs \<Longrightarrow> mset (swapCells xs i j) = mset xs"
  unfolding swapCells_def by (rule mset_swap)

lemma swapCells_length: "length (swapCells xs i j) = length xs"
  by (simp add: swapCells_def)

lemma shuffleLoop_mset:
  "n < length out \<or> n = 0 \<Longrightarrow>
   mset (shuffleLoop out a n) = mset out \<and> length (shuffleLoop out a n) = length out"
proof (induction n arbitrary: out a)
  case 0
  show ?case by simp
next
  case (Suc n)
  obtain a' x where r: "rand a = (a', x)" by (cases "rand a")
  with rand_range [of a] have x: "0 \<le> x" "x < 1" by simp_all
  let ?j = "nat \<lfloor>x * of_nat (Suc n + 1)\<rfloor>"
  let ?out = "swapCells out (Suc n) ?j"
  from Suc.prems have i: "Suc n < length out" by simp
  from pick_le [OF x, of n] i have j: "?j < length out" by simp
  have "n < length ?out \<or> n = 0" using i by (simp add: swapCells_length)
  from Suc.IH [OF this, of a'] have "mset (shuffleLoop ?out a' n) = mset ?out"
    "length (shuffleLoop ?out a' n) = length ?out" by simp_all
  moreover have "shuffleLoop out a (Suc n) = shuffleLoop ?out a' n"
    by (simp add: r Let_def)
  ultimately show ?case
    using swapCells_mset [OF i j] by (simp add: swapCells_length)
qed

lemma seededShuffle_mset:
  "mset (seededShuffle arr sd) = mset arr \<and> length (seededShuffle arr sd) = length arr"
proof -
  have "length arr - 1 < length arr \<or> length arr - 1 = 0" by (cases arr) simp_all
  then show ?thesis unfolding seededShuffle_def by (rule shuffleLoop_mset)
qed

lemma shuffleLoopStore_cells:
  "cells h out = Some xs \<Longrightarrow>
   shuffleLoopStore h out a n = h\<lparr>cells := (cells h)(out \<mapsto> shuffleLoop xs a n)\<rparr>"
proof (induction n arbitrary: h xs a)
  case 0
  then have "(cells h)(out \<mapsto> xs) = cells h" by (simp add: map_upd_triv)
  then show ?case by simp
next
  case (Suc n)
  obtain a' x where r: "rand a = (a', x)" by (cases "rand a")
  let ?j = "nat \<lfloor>x * of_nat (Suc n + 1)\<rfloor>"
  let ?h1 = "writeCell h out (Suc n) (readCell h out ?j)"
  let ?h2 = "writeCell ?h1 out ?j (readCell h out (Suc n))"
  have h1: "?h1 = h\<lparr>cells := (cells h)(out \<mapsto> xs[Suc n := xs ! ?j])\<rparr>"
    using Suc.prems by (simp add: writeCell_def readCell_def)
  have h2: "?h2 = h\<lparr>cells := (cells h)(out \<mapsto> swapCells xs (Suc n) ?j)\<rparr>"
    using Suc.prems by (simp add: h1 writeCell_def readCell_def swapCells_def)
  then have c2: "cells ?h2 out = Some (swapCells xs (Suc n) ?j)" by simp
  have "shuffleLoopStore h out a (Suc n) = shuffleLoopStore ?h2 out a' n"
    by (simp add: r Let_def)
  also have "\<dots> = ?h2\<lparr>cells := (cells ?h2)(out \<mapsto> shuffleLoop (swapCells xs (Suc n) ?j) a' n)\<rparr>"
    by (rule Suc.IH [OF c2])
  also have "\<dots> = h\<lparr>cells := (cells h)(out \<mapsto> shuffleLoop (swapCells xs (Suc n) ?j) a' n)\<rparr>"
    unfolding h2 by simp
  also have "shuffleLoop (swapCells xs (Suc n) ?j) a' n = shuffleLoop xs a (Suc n)"
    by (simp add: r Let_def)
  finally show ?case .
qed

lemma seededShuffleStore_result:
  assumes "cells h arr = Some xs"
  shows "seededShuffleStore h arr sd
       = Some (h\<lparr>cells := (cells h)(fresh h \<mapsto> seededShuffle xs sd), fresh := Suc (fresh h)\<rparr>,
               fresh h)"
proof -
  let ?h' = "h\<lparr>cells := (cells h)(fresh h \<mapsto> xs), fresh := Suc (fresh h)\<rparr>"
  have s: "slice h arr = Some (?h', fresh h)" using assms by (simp add: slice_def)
  have c: "cells ?h' (fresh h) = Some xs" by simp
  show ?thesis
    by (simp add: seededShuffleStore_def s shuffleLoopStore_cells [OF c] seededShuffle_def)
qed

text \<open>
  Claim C7. For every input array and every integer seed, \<open>seededShuffle\<close> returns a
  new array holding exactly the elements of the input (the same multiset, the same
  length); the input array, and every other array of the store, is left as it was; and
  the result is determined by the input's contents and the seed: two calls with the same
  seed on arrays of equal contents, in whatever stores, return equal contents. The
  product \<open>rand() * (i + 1)\<close> is taken exactly, as double arithmetic does for arrays of
  fewer than \<open>2^21\<close> elements.
\<close>

theorem seededShuffle_permutation:
  assumes "wellFormed h" and "cells h arr = Some xs"
    and "wellFormed h2" and "cells h2 arr2 = Some xs"
  shows "\<exists>h' out ys h2' out2.
       seededShuffleStore h arr sd = Some (h', out)
     \<and> cells h' out = Some ys \<and> mset ys = mset xs \<and> length ys = length xs
     \<and> out \<noteq> arr \<and> cells h' arr = Some xs
     \<and> (\<forall>p. p \<noteq> out \<longrightarrow> cells h' p = cells h p)
     \<and> seededShuffleStore h2 arr2 sd = Some (h2', out2)
     \<and> cells h2' out2 = Some ys
     \<and> ys = seededShuffle xs sd"
proof -
  let ?ys = "seededShuffle xs sd"
  let ?h' = "h\<lparr>cells := (cells h)(fresh h \<mapsto> ?ys), fresh := Suc (fresh h)\<rparr>"
  let ?h2' = "h2\<lparr>cells := (cells h2)(fresh h2 \<mapsto> ?ys), fresh := Suc (fresh h2)\<rparr>"
  have 1: "seededShuffleStore h arr sd = Some (?h', fresh h)"
    by (rule seededShuffleStore_result [OF assms(2)])
  have 2: "seededShuffleStore h2 arr2 sd = Some (?h2', fresh h2)"
    by (rule seededShuffleStore_result [OF assms(4)])
  have "cells h (fresh h) = None" using assms(1) by (simp add: wellFormed_def)
  with assms(2) have ne: "fresh h \<noteq> arr" by auto
  have 3: "cells ?h' (fresh h) = Some ?ys" by simp
  have 4: "mset ?ys = mset xs" "length ?ys = length xs"
    using seededShuffle_mset [of xs sd] by simp_all
  have 5: "cells ?h' arr = Some xs" using ne assms(2) by simp
  have 6: "\<forall>p. p \<noteq> fresh h \<longrightarrow> cells ?h' p = cells h p" by simp
  have 7: "cells ?h2' (fresh h2) = Some ?ys" by simp
  from 1 2 3 4 5 6 7 ne show ?thesis by blast
qed


theorem seededShuffle_permutation_witness:
  "\<exists>h' out ys. seededShuffleStore exampleStore 0 42 = Some (h', out)
     \<and> cells h' out = Some ys \<and> mset ys = mset [''a'', ''b'', ''c'', ''d'']
     \<and> out \<noteq> 0 \<and> cells h' 0 = Some [''a'', ''b'', ''c'', ''d'']"
proof -
  have wf: "wellFormed exampleStore"
    by (simp add: wellFormed_def exampleStore_def)
  have c: "cells exampleStore 0 = Some [''a'', ''b'', ''c'', ''d'']"
    by (simp add: exampleStore_def)
  from seededShuffle_permutation [OF wf c wf c, of 42] obtain h' out ys where
    "seededShuffleStore exampleStore 0 42 = Some (h', out)"
    "cells h' out = Some ys" "mset ys = mset [''a'', ''b'', ''c'', ''d'']"
    "out \<noteq> 0" "cells h' 0 = Some [''a'', ''b'', ''c'', ''d'']"
    by blast
  then show ?thesis by blast
qed

section \<open>Starting a tournament again\<close>

lemma materialize_fresh:
  "winnersOf (materialize db t now hostId challengerId perUser hs cs) = Map.empty
   \<and> map_option status (tournament (materialize db t now hostId challengerId perUser hs cs))
       = Some InProgress"
  by (simp add: materialize_def winnersOf_def Let_def)

text \<open>
  In the playlist and playlist-vs modes a start request for a tournament that is in
  progress or completed returns before any write.
\<close>

lemma postStart_guarded:
  assumes "tournament db = Some t" and "sourceType t = Playlist \<or> sourceType t = PlaylistVs"
    and "status t = InProgress \<or> status t = Completed"
  shows "snd (postStart env db) = db"
  using assms
  by (auto simp: postStart_def startPlaylist_def startPlaylistVs_def Let_def
        split: option.splits)

lemma exampleSizing:
  "dualSizing 8 exampleHost exampleChallenger
     = Some (Sized 4 (take 4 exampleHost) (take 4 exampleChallenger))"
proof -
  have e: "effectivePow2 (sizingPass exampleHost exampleChallenger 4) = 4" by code_simp
  have h: "take 4 (hostPicked (sizingPass exampleHost exampleChallenger 4)) = take 4 exampleHost"
    by code_simp
  have c: "take 4 (challengerPicked (sizingPass exampleHost exampleChallenger 4))
      = take 4 exampleChallenger"
    by code_simp
  have "sizingLoop exampleHost exampleChallenger 4
      = Some (Sized 4 (take 4 exampleHost) (take 4 exampleChallenger))"
    by (subst sizingLoop.simps) (simp add: e h c)
  then show ?thesis by (simp add: dualSizing_def)
qed

text \<open>
  Claim C8 asks that the start command leave a tournament that is already in progress
  or completed as it is, in every mode. The top-tracks path has no status guard: for
  the example tournament, in progress with the winner of round 0 match 0 recorded, a
  start request by the host succeeds and stores a fresh bracket whose winners map has
  no entry for that match.
\<close>

theorem postStart_topTracks_restart:
  "sourceType exampleTournament = TopTracks \<and> status exampleTournament = InProgress
   \<and> winnersOf startedDb ''r0m0'' = Some ''h0''
   \<and> fst (postStart exampleOutside startedDb) = StartOk
   \<and> winnersOf (snd (postStart exampleOutside startedDb)) ''r0m0'' = None"
proof -
  let ?m = "materialize startedDb exampleTournament 5 ''host'' ''guest'' 4
              (take 4 exampleHost) (take 4 exampleChallenger)"
  have t: "tournament startedDb = Some exampleTournament" by (simp add: startedDb_def)
  have "startTopTracks exampleOutside startedDb exampleTournament ''host'' = (StartOk, ?m)"
    by (simp add: startTopTracks_def exampleTournament_def exampleOutside_def exampleSizing)
  then have "postStart exampleOutside startedDb = (StartOk, ?m)"
    by (simp add: postStart_def t exampleTournament_def exampleOutside_def)
  moreover have "winnersOf ?m ''r0m0'' = None"
    by (simp only: materialize_fresh)
  moreover have "winnersOf startedDb ''r0m0'' = Some ''h0''"
    by (simp add: startedDb_def winnersOf_def)
  ultimately show ?thesis by (simp add: exampleTournament_def)
qed

end
